theory Spec2Isabelle
  imports Complex_Main
begin

section \<open>The housing-market model of \<^verbatim>\<open>try2.py\<close>\<close>

text \<open>
  Python objects are held in two total heaps, one of houses and one of home owners,
  addressed by references (natural numbers). A reference always denotes an object, as in
  Python; the dictionary \<^verbatim>\<open>house_map\<close> is a partial map from identifiers to
  references and a lookup of a missing key is a \<^verbatim>\<open>KeyError\<close>. The identifier
  \<^verbatim>\<open>H_i\<close> is represented by the number \<open>i\<close>. Python integers are \<open>int\<close>. A Python
  float is the real number it denotes, and every floating-point operation of the code is
  the exact operation followed by the rounding \<open>rnd\<close> to a double, which is an
  argument of the model: at \<open>rnd = double\<close> the scores that a home owner compares
  are the doubles the code computes. The identifier of an
  owner is only printed and is left out, as are the back-reference of an agent to its
  model, the data collector and the console output.
\<close>

subsection \<open>Global constants\<close>

definition COST_PER_LABEL_UPGRADE :: int where
  "COST_PER_LABEL_UPGRADE = 5000"

definition MOVING_COST_FIXED :: int where
  "MOVING_COST_FIXED = 2000"

definition WEIGHT_FINANCIAL :: real where
  "WEIGHT_FINANCIAL = 4 / 10"

definition WEIGHT_COMFORT :: real where
  "WEIGHT_COMFORT = 3 / 10"

definition WEIGHT_ENVIRONMENT :: real where
  "WEIGHT_ENVIRONMENT = 3 / 10"

definition MIN_WEALTH :: int where
  "MIN_WEALTH = 0"

definition MAX_WEALTH :: int where
  "MAX_WEALTH = 500000"

definition MAX_QUALITY :: real where
  "MAX_QUALITY = 1"

named_theorems model_consts \<open>the values of the global constants\<close>

subsection \<open>Data\<close>

type_synonym house_ref = nat
type_synonym owner_ref = nat

datatype Intention = STAY | UPGRADE | BUY

datatype error = KeyError | AttributeError | IndexError

record House =
  unique_id :: nat
  energy_label :: int
  size_m2 :: int
  quality :: real
  market_value :: int
  owner :: "owner_ref option"
  is_vacant :: bool

record HomeOwner =
  income :: int
  savings :: int
  house :: house_ref
  intention :: Intention
  target_house_id :: "nat option"

record HousingModel =
  agents :: "owner_ref list"
  owner_heap :: "owner_ref \<Rightarrow> HomeOwner"
  house_heap :: "house_ref \<Rightarrow> House"
  house_map :: "nat \<rightharpoonup> house_ref"
  vacancy_pool :: "house_ref list"

subsection \<open>Helper functions\<close>

text \<open>
  \<^verbatim>\<open>normalize\<close> and, further down, \<^verbatim>\<open>calculate_satisfaction\<close> in the arithmetic
  of the real numbers. Their evaluation in doubles, which is what \<^verbatim>\<open>HomeOwner.step\<close>
  compares, follows under the floating-point evaluation.
\<close>

definition normalize :: "real \<Rightarrow> real \<Rightarrow> real \<Rightarrow> real" where
  "normalize v min_val max_val =
     (if max_val = min_val then 0
      else (max min_val (min v max_val) - min_val) / (max_val - min_val))"

definition calculate_mortgage_capacity :: "int \<Rightarrow> int" where
  "calculate_mortgage_capacity inc = inc * 5"

subsection \<open>House\<close>

definition new_House :: "nat \<Rightarrow> int \<Rightarrow> int \<Rightarrow> real \<Rightarrow> int \<Rightarrow> House" where
  "new_House uid label sz q price =
     \<lparr>unique_id = uid, energy_label = label, size_m2 = sz, quality = q,
      market_value = price, owner = None, is_vacant = False\<rparr>"

definition update_energy_label :: "House \<Rightarrow> int \<Rightarrow> House" where
  "update_energy_label h levels =
     h\<lparr>energy_label := energy_label h + levels,
       market_value := market_value h + levels * 2000\<rparr>"

subsection \<open>HomeOwner\<close>

definition new_HomeOwner :: "int \<Rightarrow> int \<Rightarrow> house_ref \<Rightarrow> HomeOwner" where
  "new_HomeOwner inc sav h =
     \<lparr>income = inc, savings = sav, house = h, intention = STAY, target_house_id = None\<rparr>"

definition calculate_satisfaction :: "HomeOwner \<Rightarrow> House \<Rightarrow> int \<Rightarrow> int \<Rightarrow> int \<Rightarrow> real" where
  "calculate_satisfaction self target_house upgrade_cost moving_cost bonus_energy =
     (let projected_savings = savings self - upgrade_cost - moving_cost;
          norm_financial = normalize (of_int projected_savings) (of_int MIN_WEALTH) (of_int MAX_WEALTH);
          projected_label = min (energy_label target_house + bonus_energy) 7;
          norm_energy = normalize (of_int projected_label) 0 7;
          norm_quality = normalize (quality target_house) 0 MAX_QUALITY
      in WEIGHT_FINANCIAL * norm_financial + WEIGHT_ENVIRONMENT * norm_energy
           + WEIGHT_COMFORT * norm_quality)"

subsection \<open>Floating-point evaluation\<close>

text \<open>
  Rounding to the nearest double, ties to even: 53 significant bits, and no exponent
  below \<open>- 1022\<close>, so that the subnormal numbers are spaced \<open>2 powi - 1074\<close> apart.
  The overflow above the largest double is left out; every rounded value of the scores
  is of magnitude at most 2.
\<close>

definition round_to_even :: "real \<Rightarrow> int" where
  "round_to_even y =
     (let n = \<lfloor>y\<rfloor>; r = y - of_int n
      in if r < 1 / 2 then n else if 1 / 2 < r then n + 1 else if even n then n else n + 1)"

definition ulp :: "real \<Rightarrow> real" where
  "ulp x = 2 powi (max \<lfloor>log 2 \<bar>x\<bar>\<rfloor> (- 1022) - 52)"

definition double :: "real \<Rightarrow> real" where
  "double x = (if x = 0 then 0 else of_int (round_to_even (x / ulp x)) * ulp x)"

text \<open>
  What is used of the rounding: it keeps a number that is not negative so, it keeps a
  number of the unit interval there, and up to magnitude 2 it is off by at most
  \<open>1 / 2 ^ 50\<close>.
\<close>

definition roundoff :: real where
  "roundoff = 1 / 2 ^ 50"

definition rounding :: "(real \<Rightarrow> real) \<Rightarrow> bool" where
  "rounding rnd =
     (\<forall>x. (0 \<le> x \<longrightarrow> 0 \<le> rnd x) \<and> (0 \<le> x \<and> x \<le> 1 \<longrightarrow> rnd x \<le> 1)
          \<and> (\<bar>x\<bar> \<le> 2 \<longrightarrow> \<bar>rnd x - x\<bar> \<le> roundoff))"

text \<open>
  \<^verbatim>\<open>normalize\<close> as the program evaluates it. At each of its three calls the
  arguments are integers, or the lower bound is 0 and the upper bound 1.0, so the clamping
  and the two subtractions are exact and the division is the one rounded operation.
\<close>

definition normalize_fl :: "(real \<Rightarrow> real) \<Rightarrow> real \<Rightarrow> real \<Rightarrow> real \<Rightarrow> real" where
  "normalize_fl rnd v min_val max_val =
     (if max_val = min_val then 0
      else rnd ((max min_val (min v max_val) - min_val) / (max_val - min_val)))"

text \<open>
  \<^verbatim>\<open>calculate_satisfaction\<close> as the program evaluates it: the savings and the
  label are integers, the weights are the doubles of their decimal literals, and each
  product and each sum is rounded, the sums from the left.
\<close>

definition calculate_satisfaction_fl ::
  "(real \<Rightarrow> real) \<Rightarrow> HomeOwner \<Rightarrow> House \<Rightarrow> int \<Rightarrow> int \<Rightarrow> int \<Rightarrow> real" where
  "calculate_satisfaction_fl rnd self target_house upgrade_cost moving_cost bonus_energy =
     (let projected_savings = savings self - upgrade_cost - moving_cost;
          norm_financial = normalize_fl rnd (of_int projected_savings)
                             (of_int MIN_WEALTH) (of_int MAX_WEALTH);
          projected_label = min (energy_label target_house + bonus_energy) 7;
          norm_energy = normalize_fl rnd (of_int projected_label) 0 7;
          norm_quality = normalize_fl rnd (quality target_house) 0 MAX_QUALITY
      in rnd (rnd (rnd (rnd WEIGHT_FINANCIAL * norm_financial)
                   + rnd (rnd WEIGHT_ENVIRONMENT * norm_energy))
              + rnd (rnd WEIGHT_COMFORT * norm_quality)))"

text \<open>The three scores of \<^verbatim>\<open>HomeOwner.step\<close>; \<open>- 999\<close> is the default low value.\<close>

definition S_current :: "(real \<Rightarrow> real) \<Rightarrow> HousingModel \<Rightarrow> owner_ref \<Rightarrow> real" where
  "S_current rnd m r =
     calculate_satisfaction_fl rnd (owner_heap m r) (house_heap m (house (owner_heap m r))) 0 0 0"

definition S_upgrade :: "(real \<Rightarrow> real) \<Rightarrow> HousingModel \<Rightarrow> owner_ref \<Rightarrow> real" where
  "S_upgrade rnd m r =
     (let self = owner_heap m r; own = house_heap m (house self)
      in if savings self > COST_PER_LABEL_UPGRADE \<and> energy_label own < 7
         then calculate_satisfaction_fl rnd self own COST_PER_LABEL_UPGRADE 0 1
         else - 999)"

text \<open>The loop over the vacancy pool, with the pair (best house, best score) it updates.\<close>

fun scan_market ::
  "(real \<Rightarrow> real) \<Rightarrow> (house_ref \<Rightarrow> House) \<Rightarrow> HomeOwner \<Rightarrow> house_ref list \<Rightarrow> house_ref option \<times> real
     \<Rightarrow> house_ref option \<times> real" where
  "scan_market rnd hh self [] acc = acc"
| "scan_market rnd hh self (h # pool) (best_market_house, S_move) =
     (if market_value (hh h) \<le> savings self + calculate_mortgage_capacity (income self)
      then (let s_temp = calculate_satisfaction_fl rnd self (hh h) 0 MOVING_COST_FIXED 0
            in if s_temp > S_move then scan_market rnd hh self pool (Some h, s_temp)
               else scan_market rnd hh self pool (best_market_house, S_move))
      else scan_market rnd hh self pool (best_market_house, S_move))"

definition market_scan :: "(real \<Rightarrow> real) \<Rightarrow> HousingModel \<Rightarrow> owner_ref \<Rightarrow> house_ref option \<times> real" where
  "market_scan rnd m r = scan_market rnd (house_heap m) (owner_heap m r) (vacancy_pool m) (None, - 999)"

definition set_intention ::
  "HousingModel \<Rightarrow> owner_ref \<Rightarrow> Intention \<Rightarrow> nat option \<Rightarrow> HousingModel" where
  "set_intention m r i t =
     m\<lparr>owner_heap := (owner_heap m)(r := (owner_heap m r)\<lparr>intention := i, target_house_id := t\<rparr>)\<rparr>"

text \<open>
  \<^verbatim>\<open>HomeOwner.step\<close>. Reading \<^verbatim>\<open>best_market_house.unique_id\<close> when no house was
  retained is an \<^verbatim>\<open>AttributeError\<close>.
\<close>

definition HomeOwner_step :: "(real \<Rightarrow> real) \<Rightarrow> HousingModel \<Rightarrow> owner_ref \<Rightarrow> error + HousingModel" where
  "HomeOwner_step rnd m r =
     (let (best_market_house, S_move) = market_scan rnd m r
      in if S_move > S_upgrade rnd m r \<and> S_move > S_current rnd m r then
           (case best_market_house of
              None \<Rightarrow> Inl AttributeError
            | Some b \<Rightarrow> Inr (set_intention m r BUY (Some (unique_id (house_heap m b)))))
         else if S_upgrade rnd m r > S_current rnd m r then Inr (set_intention m r UPGRADE None)
         else Inr (set_intention m r STAY None))"

subsection \<open>HousingModel\<close>

text \<open>
  \<^verbatim>\<open>schedule.step()\<close> of the scheduler (a library class, with one stage and no
  shuffling): every agent's \<^verbatim>\<open>step\<close>, in the order the agents were added.
\<close>

fun schedule_step_agents :: "(real \<Rightarrow> real) \<Rightarrow> HousingModel \<Rightarrow> owner_ref list \<Rightarrow> error + HousingModel" where
  "schedule_step_agents rnd m [] = Inr m"
| "schedule_step_agents rnd m (a # as) =
     (case HomeOwner_step rnd m a of
        Inl e \<Rightarrow> Inl e
      | Inr m' \<Rightarrow> schedule_step_agents rnd m' as)"

definition schedule_step :: "(real \<Rightarrow> real) \<Rightarrow> HousingModel \<Rightarrow> error + HousingModel" where
  "schedule_step rnd m = schedule_step_agents rnd m (agents m)"

text \<open>
  \<^verbatim>\<open>execute_move\<close>. The identifier is whatever \<^verbatim>\<open>target_house_id\<close> held, so it
  may be \<^verbatim>\<open>None\<close>, which is no key of \<^verbatim>\<open>house_map\<close>.
\<close>

definition execute_move :: "HousingModel \<Rightarrow> owner_ref \<Rightarrow> nat option \<Rightarrow> error + HousingModel" where
  "execute_move m buyer house_id =
     (let old_house = house (owner_heap m buyer);
          hh1 = (house_heap m)(old_house := (house_heap m old_house)\<lparr>owner := None, is_vacant := True\<rparr>);
          pool1 = vacancy_pool m @ [old_house]
      in case (case house_id of None \<Rightarrow> None | Some k \<Rightarrow> house_map m k) of
           None \<Rightarrow> Inl KeyError
         | Some new_house \<Rightarrow>
             (let hh2 = hh1(new_house := (hh1 new_house)\<lparr>owner := Some buyer, is_vacant := False\<rparr>);
                  pool2 = (if new_house \<in> set pool1 then remove1 new_house pool1 else pool1);
                  oh = (owner_heap m)(buyer := (owner_heap m buyer)
                         \<lparr>savings := savings (owner_heap m buyer) - MOVING_COST_FIXED,
                          house := new_house\<rparr>)
              in Inr (m\<lparr>house_heap := hh2, vacancy_pool := pool2, owner_heap := oh\<rparr>)))"

text \<open>
  The dictionary \<^verbatim>\<open>bids\<close> keeps its keys in insertion order; it is an association
  list from target identifiers to the bidders, in the order they were appended.
\<close>

fun add_bid :: "nat option \<Rightarrow> owner_ref \<Rightarrow> (nat option \<times> owner_ref list) list
    \<Rightarrow> (nat option \<times> owner_ref list) list" where
  "add_bid t a [] = [(t, [a])]"
| "add_bid t a ((k, bs) # rest) =
     (if k = t then (k, bs @ [a]) # rest else (k, bs) # add_bid t a rest)"

fun collect_bids_loop :: "(owner_ref \<Rightarrow> HomeOwner) \<Rightarrow> owner_ref list
    \<Rightarrow> (nat option \<times> owner_ref list) list \<Rightarrow> (nat option \<times> owner_ref list) list" where
  "collect_bids_loop oh [] bids = bids"
| "collect_bids_loop oh (a # as) bids =
     collect_bids_loop oh as
       (if intention (oh a) = BUY then add_bid (target_house_id (oh a)) a bids else bids)"

definition collect_bids :: "HousingModel \<Rightarrow> (nat option \<times> owner_ref list) list" where
  "collect_bids m = collect_bids_loop (owner_heap m) (agents m) []"

definition financial_capacity :: "(owner_ref \<Rightarrow> HomeOwner) \<Rightarrow> owner_ref \<Rightarrow> int" where
  "financial_capacity oh x = savings (oh x) + calculate_mortgage_capacity (income (oh x))"

text \<open>
  \<^verbatim>\<open>sorted(xs, key=k, reverse=True)\<close> is a stable sort by descending key: bidders with
  the same key keep their order. On integer keys that is the stable ascending sort by the
  negated key.
\<close>

definition sorted_reverse :: "('a \<Rightarrow> int) \<Rightarrow> 'a list \<Rightarrow> 'a list" where
  "sorted_reverse k xs = sort_key (\<lambda>x. - k x) xs"

definition select_winner :: "(owner_ref \<Rightarrow> HomeOwner) \<Rightarrow> owner_ref list \<Rightarrow> error + owner_ref" where
  "select_winner oh potential_buyers =
     (case sorted_reverse (financial_capacity oh) potential_buyers of
        [] \<Rightarrow> Inl IndexError
      | winner # _ \<Rightarrow> Inr winner)"

fun resolve_bids :: "HousingModel \<Rightarrow> (nat option \<times> owner_ref list) list \<Rightarrow> error + HousingModel" where
  "resolve_bids m [] = Inr m"
| "resolve_bids m ((house_id, potential_buyers) # rest) =
     (case select_winner (owner_heap m) potential_buyers of
        Inl e \<Rightarrow> Inl e
      | Inr winner \<Rightarrow>
          (case execute_move m winner house_id of
             Inl e \<Rightarrow> Inl e
           | Inr m' \<Rightarrow> resolve_bids m' rest))"

definition resolve_market_conflicts :: "HousingModel \<Rightarrow> error + HousingModel" where
  "resolve_market_conflicts m = resolve_bids m (collect_bids m)"

text \<open>The upgrade loop of \<^verbatim>\<open>HousingModel.step\<close>.\<close>

definition apply_upgrade :: "HousingModel \<Rightarrow> owner_ref \<Rightarrow> HousingModel" where
  "apply_upgrade m a =
     (let ag = owner_heap m a; h = house ag
      in m\<lparr>house_heap := (house_heap m)(h := update_energy_label (house_heap m h) 1),
           owner_heap := (owner_heap m)(a := ag\<lparr>savings := savings ag - COST_PER_LABEL_UPGRADE,
                                                intention := STAY\<rparr>)\<rparr>)"

fun handle_upgrades :: "HousingModel \<Rightarrow> owner_ref list \<Rightarrow> HousingModel" where
  "handle_upgrades m [] = m"
| "handle_upgrades m (a # as) =
     handle_upgrades (if intention (owner_heap m a) = UPGRADE then apply_upgrade m a else m) as"

definition HousingModel_step :: "(real \<Rightarrow> real) \<Rightarrow> HousingModel \<Rightarrow> error + HousingModel" where
  "HousingModel_step rnd m =
     (case schedule_step rnd m of
        Inl e \<Rightarrow> Inl e
      | Inr m1 \<Rightarrow>
          (case resolve_market_conflicts m1 of
             Inl e \<Rightarrow> Inl e
           | Inr m2 \<Rightarrow> Inr (handle_upgrades m2 (agents m2))))"

text \<open>The driver: \<open>n\<close> calls of \<^verbatim>\<open>model.step()\<close>.\<close>

fun run :: "(real \<Rightarrow> real) \<Rightarrow> nat \<Rightarrow> HousingModel \<Rightarrow> error + HousingModel" where
  "run rnd 0 m = Inr m"
| "run rnd (Suc n) m =
     (case run rnd n m of
        Inl e \<Rightarrow> Inl e
      | Inr m' \<Rightarrow> HousingModel_step rnd m')"

subsection \<open>Initialisation\<close>

text \<open>
  \<^verbatim>\<open>HousingModel.__init__\<close>, with the random draws as arguments: one tuple (energy
  label, size, quality, price) for each house and one pair (income, savings) for each
  owner. House \<open>i\<close> and owner \<open>i\<close> are allocated at reference \<open>i\<close>, so
  \<^verbatim>\<open>all_houses[i]\<close> is the reference \<open>i\<close>, and an index beyond the houses is an
  \<^verbatim>\<open>IndexError\<close>.
\<close>

definition empty_model :: HousingModel where
  "empty_model =
     \<lparr>agents = [], owner_heap = (\<lambda>_. new_HomeOwner 0 0 0),
      house_heap = (\<lambda>_. new_House 0 0 0 0 0), house_map = Map.empty, vacancy_pool = []\<rparr>"

fun create_houses :: "nat \<Rightarrow> (int \<times> int \<times> real \<times> int) list \<Rightarrow> HousingModel \<Rightarrow> HousingModel" where
  "create_houses i [] m = m"
| "create_houses i ((label, sz, q, price) # ds) m =
     create_houses (Suc i) ds
       (m\<lparr>house_heap := (house_heap m)(i := new_House i label sz q price),
          house_map := (house_map m)(i \<mapsto> i)\<rparr>)"

fun create_owners :: "nat \<Rightarrow> nat \<Rightarrow> (int \<times> int) list \<Rightarrow> HousingModel \<Rightarrow> error + HousingModel" where
  "create_owners i n_houses [] m = Inr m"
| "create_owners i n_houses ((inc, sav) # ds) m =
     (if i < n_houses then
        create_owners (Suc i) n_houses ds
          (m\<lparr>owner_heap := (owner_heap m)(i := new_HomeOwner inc sav i),
             house_heap := (house_heap m)(i := (house_heap m i)\<lparr>owner := Some i\<rparr>),
             agents := agents m @ [i]\<rparr>)
      else Inl IndexError)"

fun handle_remaining :: "nat list \<Rightarrow> HousingModel \<Rightarrow> HousingModel" where
  "handle_remaining [] m = m"
| "handle_remaining (i # is) m =
     handle_remaining is
       (m\<lparr>house_heap := (house_heap m)(i := (house_heap m i)\<lparr>is_vacant := True\<rparr>),
          vacancy_pool := vacancy_pool m @ [i]\<rparr>)"

definition init_model :: "(int \<times> int \<times> real \<times> int) list \<Rightarrow> (int \<times> int) list \<Rightarrow> error + HousingModel" where
  "init_model hs os =
     (case create_owners 0 (length hs) os (create_houses 0 hs empty_model) of
        Inl e \<Rightarrow> Inl e
      | Inr m \<Rightarrow> Inr (handle_remaining [length os ..< length hs] m))"

text \<open>The ranges the initialiser draws from.\<close>

definition valid_house_draw :: "int \<times> int \<times> real \<times> int \<Rightarrow> bool" where
  "valid_house_draw d =
     (case d of (label, sz, q, price) \<Rightarrow>
        0 \<le> label \<and> label \<le> 5 \<and> 50 \<le> sz \<and> sz \<le> 150 \<and> 0 \<le> q \<and> q < 1
        \<and> 100000 \<le> price \<and> price \<le> 300000)"

definition valid_owner_draw :: "int \<times> int \<Rightarrow> bool" where
  "valid_owner_draw d =
     (case d of (inc, sav) \<Rightarrow> 30000 \<le> inc \<and> inc \<le> 80000 \<and> 5000 \<le> sav \<and> sav \<le> 50000)"

definition valid_draws :: "(int \<times> int \<times> real \<times> int) list \<Rightarrow> (int \<times> int) list \<Rightarrow> bool" where
  "valid_draws hs os = (list_all valid_house_draw hs \<and> list_all valid_owner_draw os)"

section \<open>Specification notions, invariants and example states\<close>

subsection \<open>Scores in the words of the specification\<close>

text \<open>
  The score as the specification words it: each term is normalised into \<open>[0, 1]\<close> with
  values outside the range taken to the nearer bound, and the three terms are weighted.
\<close>

definition spec_normalize :: "real \<Rightarrow> real \<Rightarrow> real \<Rightarrow> real" where
  "spec_normalize v lo hi = (if v \<le> lo then 0 else if hi \<le> v then 1 else (v - lo) / (hi - lo))"

definition norm_liquidity :: "HomeOwner \<Rightarrow> int \<Rightarrow> int \<Rightarrow> real" where
  "norm_liquidity p upgrade_cost moving_cost =
     spec_normalize (of_int (savings p - upgrade_cost - moving_cost))
       (of_int MIN_WEALTH) (of_int MAX_WEALTH)"

definition norm_rating :: "House \<Rightarrow> int \<Rightarrow> real" where
  "norm_rating a bonus_rating = spec_normalize (of_int (min (energy_label a + bonus_rating) 7)) 0 7"

definition norm_quality :: "House \<Rightarrow> real" where
  "norm_quality a = spec_normalize (quality a) 0 MAX_QUALITY"

text \<open>
  The candidates of the market scan, and the best score among them as the specification
  words it: the maximum over the affordable vacant houses, or the low default when there
  is none.
\<close>

definition affordable_pool :: "HousingModel \<Rightarrow> owner_ref \<Rightarrow> house_ref list" where
  "affordable_pool m r =
     filter (\<lambda>h. market_value (house_heap m h) \<le> financial_capacity (owner_heap m) r)
       (vacancy_pool m)"

definition buy_score :: "(real \<Rightarrow> real) \<Rightarrow> HousingModel \<Rightarrow> owner_ref \<Rightarrow> house_ref \<Rightarrow> real" where
  "buy_score rnd m r h =
     calculate_satisfaction_fl rnd (owner_heap m r) (house_heap m h) 0 MOVING_COST_FIXED 0"

definition best_buy_score :: "(real \<Rightarrow> real) \<Rightarrow> HousingModel \<Rightarrow> owner_ref \<Rightarrow> real" where
  "best_buy_score rnd m r =
     (if affordable_pool m r = [] then - 999
      else Max (set (map (buy_score rnd m r) (affordable_pool m r))))"

subsection \<open>A small market\<close>

text \<open>
  Two owners and three houses, drawn inside the initialiser's ranges: owner 0 lives in
  house 0, owner 1 in house 1, and house 2 is vacant and only owner 0 can afford it.
\<close>

definition example_houses :: "(int \<times> int \<times> real \<times> int) list" where
  "example_houses = [(4, 100, 1/2, 100000), (0, 100, 0, 100000), (5, 100, 7/8, 300000)]"

definition example_owners :: "(int \<times> int) list" where
  "example_owners = [(80000, 50000), (30000, 6000)]"

definition example_model :: HousingModel where
  "example_model =
     \<lparr>agents = [0, 1],
      owner_heap = (\<lambda>_. new_HomeOwner 0 0 0)(0 := new_HomeOwner 80000 50000 0, 1 := new_HomeOwner 30000 6000 1),
      house_heap = (\<lambda>_. new_House 0 0 0 0 0)
         (0 := (new_House 0 4 100 (1/2) 100000)\<lparr>owner := Some 0\<rparr>,
          1 := (new_House 1 0 100 0 100000)\<lparr>owner := Some 1\<rparr>,
          2 := (new_House 2 5 100 (7/8) 300000)\<lparr>is_vacant := True\<rparr>),
      house_map = [0 \<mapsto> 0, 1 \<mapsto> 1, 2 \<mapsto> 2],
      vacancy_pool = [2]\<rparr>"

text \<open>The same market with owner 1 at savings equal to the upgrade cost.\<close>

definition example_poor :: HousingModel where
  "example_poor = example_model\<lparr>owner_heap :=
      (owner_heap example_model)(1 := new_HomeOwner 30000 5000 1)\<rparr>"

subsection \<open>The invariant of the world state\<close>

text \<open>
  The houses of a model are the objects registered in \<^verbatim>\<open>house_map\<close>. The
  well-formedness of a state gathers what every phase of a tick relies on: each house is
  vacant exactly when it has no owner, the vacancy pool lists exactly the vacant houses
  (once each), a house is registered under its own identifier, the agents are distinct,
  owner and house point at each other, and the energy labels are within 0 to 7.
\<close>

definition houses :: "HousingModel \<Rightarrow> house_ref set" where
  "houses m = ran (house_map m)"

definition vacant_xor_owned :: "HousingModel \<Rightarrow> bool" where
  "vacant_xor_owned m =
     (\<forall>h \<in> houses m. is_vacant (house_heap m h) \<longleftrightarrow> owner (house_heap m h) = None)"

definition pool_exact :: "HousingModel \<Rightarrow> bool" where
  "pool_exact m = (set (vacancy_pool m) = {h \<in> houses m. is_vacant (house_heap m h)})"

definition asset_inv :: "HousingModel \<Rightarrow> bool" where
  "asset_inv m = (vacant_xor_owned m \<and> pool_exact m)"

definition ids_ok :: "HousingModel \<Rightarrow> bool" where
  "ids_ok m = (\<forall>k h. house_map m k = Some h \<longrightarrow> unique_id (house_heap m h) = k)"

definition owners_linked :: "HousingModel \<Rightarrow> bool" where
  "owners_linked m =
     (\<forall>a \<in> set (agents m). house (owner_heap m a) \<in> houses m
         \<and> owner (house_heap m (house (owner_heap m a))) = Some a)"

definition houses_linked :: "HousingModel \<Rightarrow> bool" where
  "houses_linked m =
     (\<forall>h \<in> houses m. \<forall>a. owner (house_heap m h) = Some a
         \<longrightarrow> a \<in> set (agents m) \<and> house (owner_heap m a) = h)"

definition labels_ok :: "HousingModel \<Rightarrow> bool" where
  "labels_ok m =
     (\<forall>h \<in> houses m. 0 \<le> energy_label (house_heap m h) \<and> energy_label (house_heap m h) \<le> 7)"

definition wf_model :: "HousingModel \<Rightarrow> bool" where
  "wf_model m =
     (asset_inv m \<and> distinct (vacancy_pool m) \<and> ids_ok m \<and> distinct (agents m)
      \<and> owners_linked m \<and> houses_linked m \<and> labels_ok m)"

subsection \<open>Phases of a tick\<close>

text \<open>The state \<^verbatim>\<open>execute_move\<close> leaves behind once the target is looked up.\<close>

definition move_to :: "HousingModel \<Rightarrow> owner_ref \<Rightarrow> house_ref \<Rightarrow> HousingModel" where
  "move_to m buyer new_house =
     (let old_house = house (owner_heap m buyer);
          hh1 = (house_heap m)(old_house := (house_heap m old_house)\<lparr>owner := None, is_vacant := True\<rparr>);
          pool1 = vacancy_pool m @ [old_house]
      in m\<lparr>house_heap := hh1(new_house := (hh1 new_house)\<lparr>owner := Some buyer, is_vacant := False\<rparr>),
           vacancy_pool := (if new_house \<in> set pool1 then remove1 new_house pool1 else pool1),
           owner_heap := (owner_heap m)(buyer := (owner_heap m buyer)
                         \<lparr>savings := savings (owner_heap m buyer) - MOVING_COST_FIXED,
                          house := new_house\<rparr>)\<rparr>)"

text \<open>
  A step of a home owner changes intentions and targets only. What the later phases need
  of an intention is that a \<open>BUY\<close> names an affordable house of the vacancy pool and
  that an \<open>UPGRADE\<close> was chosen with enough savings on a house below label 7.
\<close>

definition same_world :: "HousingModel \<Rightarrow> HousingModel \<Rightarrow> bool" where
  "same_world m m' =
     (agents m' = agents m \<and> house_heap m' = house_heap m \<and> house_map m' = house_map m
      \<and> vacancy_pool m' = vacancy_pool m
      \<and> (\<forall>a. income (owner_heap m' a) = income (owner_heap m a)
             \<and> savings (owner_heap m' a) = savings (owner_heap m a)
             \<and> house (owner_heap m' a) = house (owner_heap m a)))"

definition intent_ok :: "HousingModel \<Rightarrow> owner_ref \<Rightarrow> bool" where
  "intent_ok m a =
     ((intention (owner_heap m a) = BUY \<longrightarrow>
         (\<exists>b \<in> set (vacancy_pool m).
            target_house_id (owner_heap m a) = Some (unique_id (house_heap m b))
            \<and> market_value (house_heap m b) \<le> financial_capacity (owner_heap m) a))
      \<and> (intention (owner_heap m a) = UPGRADE \<longrightarrow>
            savings (owner_heap m a) > COST_PER_LABEL_UPGRADE
            \<and> energy_label (house_heap m (house (owner_heap m a))) < 7))"

text \<open>
  The collected bids the clearing relies on: one entry for each target, each with at least
  one bidder, the bidders being agents that intend to buy that target, and the target being
  the identifier of a house of the vacancy pool.
\<close>

definition bids_ok :: "HousingModel \<Rightarrow> (nat option \<times> owner_ref list) list \<Rightarrow> bool" where
  "bids_ok m bids =
     (distinct (map fst bids)
      \<and> (\<forall>(k, bs) \<in> set bids.
            bs \<noteq> []
            \<and> (\<forall>a \<in> set bs. a \<in> set (agents m) \<and> intention (owner_heap m a) = BUY
                   \<and> target_house_id (owner_heap m a) = k)
            \<and> (\<exists>t \<in> set (vacancy_pool m). k = Some (unique_id (house_heap m t)))))"

text \<open>What a move, and so the whole clearing, leaves untouched.\<close>

definition market_frame :: "HousingModel \<Rightarrow> HousingModel \<Rightarrow> bool" where
  "market_frame m m' =
     (agents m' = agents m \<and> house_map m' = house_map m
      \<and> (\<forall>h. energy_label (house_heap m' h) = energy_label (house_heap m h)
             \<and> market_value (house_heap m' h) = market_value (house_heap m h)
             \<and> unique_id (house_heap m' h) = unique_id (house_heap m h)
             \<and> size_m2 (house_heap m' h) = size_m2 (house_heap m h)
             \<and> quality (house_heap m' h) = quality (house_heap m h))
      \<and> (\<forall>a. intention (owner_heap m' a) = intention (owner_heap m a)
             \<and> target_house_id (owner_heap m' a) = target_house_id (owner_heap m a)
             \<and> income (owner_heap m' a) = income (owner_heap m a)
             \<and> (intention (owner_heap m a) \<noteq> BUY \<longrightarrow> owner_heap m' a = owner_heap m a)))"

text \<open>Before the upgrade loop: an agent that intends to upgrade has a house below label 7.\<close>

definition upgrade_ok :: "HousingModel \<Rightarrow> bool" where
  "upgrade_ok m =
     (\<forall>a \<in> set (agents m). intention (owner_heap m a) = UPGRADE
        \<longrightarrow> energy_label (house_heap m (house (owner_heap m a))) < 7)"

text \<open>Over a tick, identifiers and agents stay and labels and values do not decrease.\<close>

definition grows :: "HousingModel \<Rightarrow> HousingModel \<Rightarrow> bool" where
  "grows m m' =
     (agents m' = agents m \<and> house_map m' = house_map m
      \<and> (\<forall>h. energy_label (house_heap m h) \<le> energy_label (house_heap m' h)
             \<and> market_value (house_heap m h) \<le> market_value (house_heap m' h)))"

subsection \<open>Reachable states\<close>

text \<open>
  The states the program reaches: the initial state, from draws inside the initialiser's
  ranges, and the state after each tick.
\<close>

inductive reachable :: "(real \<Rightarrow> real) \<Rightarrow> HousingModel \<Rightarrow> bool" for rnd where
  init: "valid_draws hs os \<Longrightarrow> init_model hs os = Inr m \<Longrightarrow> reachable rnd m"
| tick: "reachable rnd m \<Longrightarrow> HousingModel_step rnd m = Inr m' \<Longrightarrow> reachable rnd m'"

subsection \<open>The reference resolver\<close>

text \<open>
  The resolver as the specification asks for it: the winner of every contested house is
  computed on the state the bids were collected in, and only then are the moves executed,
  in the order of the bids.
\<close>

fun select_winners :: "(owner_ref \<Rightarrow> HomeOwner) \<Rightarrow> (nat option \<times> owner_ref list) list
    \<Rightarrow> error + (owner_ref \<times> nat option) list" where
  "select_winners oh [] = Inr []"
| "select_winners oh ((house_id, potential_buyers) # rest) =
     (case select_winner oh potential_buyers of
        Inl e \<Rightarrow> Inl e
      | Inr winner \<Rightarrow>
          (case select_winners oh rest of
             Inl e \<Rightarrow> Inl e
           | Inr winners \<Rightarrow> Inr ((winner, house_id) # winners)))"

fun execute_moves :: "HousingModel \<Rightarrow> (owner_ref \<times> nat option) list \<Rightarrow> error + HousingModel" where
  "execute_moves m [] = Inr m"
| "execute_moves m ((winner, house_id) # winners) =
     (case execute_move m winner house_id of
        Inl e \<Rightarrow> Inl e
      | Inr m' \<Rightarrow> execute_moves m' winners)"

definition reference_resolver :: "HousingModel \<Rightarrow> error + HousingModel" where
  "reference_resolver m =
     (case select_winners (owner_heap m) (collect_bids m) of
        Inl e \<Rightarrow> Inl e
      | Inr winners \<Rightarrow> execute_moves m winners)"

text \<open>
  The bidders for a target as the specification words the grouping: the participants
  with intention \<open>BUY\<close> and that target, in the order of the schedule.
\<close>

definition bidders_for :: "HousingModel \<Rightarrow> nat option \<Rightarrow> owner_ref list" where
  "bidders_for m k =
     filter (\<lambda>a. intention (owner_heap m a) = BUY \<and> target_house_id (owner_heap m a) = k)
       (agents m)"

text \<open>The bids collected from a prefix \<open>pre\<close> of the agents.\<close>

definition bids_grouped ::
  "(owner_ref \<Rightarrow> HomeOwner) \<Rightarrow> owner_ref list \<Rightarrow> (nat option \<times> owner_ref list) list \<Rightarrow> bool" where
  "bids_grouped oh pre bids =
     (distinct (map fst bids)
      \<and> (\<forall>(k, bs) \<in> set bids. bs \<noteq> []
            \<and> bs = filter (\<lambda>a. intention (oh a) = BUY \<and> target_house_id (oh a) = k) pre)
      \<and> (\<forall>a \<in> set pre. intention (oh a) = BUY \<longrightarrow> target_house_id (oh a) \<in> fst ` set bids))"

text \<open>Bids whose entries have distinct keys, each bidder filed under its own target.\<close>

definition bids_keyed :: "(owner_ref \<Rightarrow> nat option) \<Rightarrow> (nat option \<times> owner_ref list) list \<Rightarrow> bool" where
  "bids_keyed tgt bids =
     (distinct (map fst bids) \<and> (\<forall>(k, bs) \<in> set bids. bs \<noteq> [] \<and> (\<forall>a \<in> set bs. tgt a = k)))"

subsection \<open>The small market after its decisions and after one tick\<close>

text \<open>
  In the first tick owner 0 buys house 2 and owner 1 upgrades house 1; in the second tick
  owner 0 intends to upgrade and owner 1, with savings of 1000, bids for house 0.
\<close>

definition owner0 :: HomeOwner where
  "owner0 = \<lparr>income = 80000, savings = 50000, house = 0, intention = STAY, target_house_id = None\<rparr>"

definition owner1 :: HomeOwner where
  "owner1 = \<lparr>income = 30000, savings = 6000, house = 1, intention = STAY, target_house_id = None\<rparr>"

definition example_decided :: HousingModel where
  "example_decided = example_model\<lparr>owner_heap := (owner_heap example_model)
      (0 := owner0\<lparr>intention := BUY, target_house_id := Some 2\<rparr>,
       1 := owner1\<lparr>intention := UPGRADE\<rparr>)\<rparr>"

definition example_tick1 :: HousingModel where
  "example_tick1 =
     \<lparr>agents = [0, 1],
      owner_heap = (\<lambda>_. new_HomeOwner 0 0 0)
         (0 := \<lparr>income = 80000, savings = 48000, house = 2, intention = BUY,
                target_house_id = Some 2\<rparr>,
          1 := \<lparr>income = 30000, savings = 1000, house = 1, intention = STAY,
                target_house_id = None\<rparr>),
      house_heap = (\<lambda>_. new_House 0 0 0 0 0)
         (0 := \<lparr>unique_id = 0, energy_label = 4, size_m2 = 100, quality = 1/2,
                market_value = 100000, owner = None, is_vacant = True\<rparr>,
          1 := \<lparr>unique_id = 1, energy_label = 1, size_m2 = 100, quality = 0,
                market_value = 102000, owner = Some 1, is_vacant = False\<rparr>,
          2 := \<lparr>unique_id = 2, energy_label = 5, size_m2 = 100, quality = 7/8,
                market_value = 300000, owner = Some 0, is_vacant = False\<rparr>),
      house_map = [0 \<mapsto> 0, 1 \<mapsto> 1, 2 \<mapsto> 2],
      vacancy_pool = [0]\<rparr>"

definition example_decided2 :: HousingModel where
  "example_decided2 = set_intention (set_intention example_tick1 0 UPGRADE None) 1 BUY (Some 0)"

subsection \<open>Two bidders for one house\<close>

text \<open>
  Owner 0 has a financial capacity of 45000 and owner 1 of 60000; house 2 is vacant and
  both can afford it. After the decisions both intend to buy it.
\<close>

definition auction_houses :: "(int \<times> int \<times> real \<times> int) list" where
  "auction_houses = [(3, 100, 1/2, 100000), (3, 100, 1/2, 100000), (5, 100, 7/8, 40000)]"

definition auction_owners :: "(int \<times> int) list" where
  "auction_owners = [(8000, 5000), (10000, 10000)]"

definition example_auction :: HousingModel where
  "example_auction =
     \<lparr>agents = [0, 1],
      owner_heap = (\<lambda>_. new_HomeOwner 0 0 0)
         (0 := new_HomeOwner 8000 5000 0, 1 := new_HomeOwner 10000 10000 1),
      house_heap = (\<lambda>_. new_House 0 0 0 0 0)
         (0 := (new_House 0 3 100 (1/2) 100000)\<lparr>owner := Some 0\<rparr>,
          1 := (new_House 1 3 100 (1/2) 100000)\<lparr>owner := Some 1\<rparr>,
          2 := (new_House 2 5 100 (7/8) 40000)\<lparr>is_vacant := True\<rparr>),
      house_map = [0 \<mapsto> 0, 1 \<mapsto> 1, 2 \<mapsto> 2],
      vacancy_pool = [2]\<rparr>"

definition auction_decided :: HousingModel where
  "auction_decided =
     set_intention (set_intention example_auction 0 BUY (Some 2)) 1 BUY (Some 2)"

section \<open>Facts about the constants\<close>

lemmas global_constants [model_consts] =
  COST_PER_LABEL_UPGRADE_def MOVING_COST_FIXED_def WEIGHT_FINANCIAL_def WEIGHT_COMFORT_def
  WEIGHT_ENVIRONMENT_def MIN_WEALTH_def MAX_WEALTH_def MAX_QUALITY_def

section \<open>Scores\<close>

subsection \<open>normalize\<close>

lemma normalize_nonneg: "lo \<le> hi \<Longrightarrow> 0 \<le> normalize v lo hi"
  by (simp add: normalize_def)

lemma normalize_le_one: "lo \<le> hi \<Longrightarrow> normalize v lo hi \<le> 1"
  by (simp add: normalize_def)

lemma normalize_mono: "lo \<le> hi \<Longrightarrow> v \<le> w \<Longrightarrow> normalize v lo hi \<le> normalize w lo hi"
  by (simp add: normalize_def divide_right_mono min_def max_def)

lemma normalize_below: "lo \<le> hi \<Longrightarrow> v \<le> lo \<Longrightarrow> normalize v lo hi = 0"
  by (simp add: normalize_def min_def max_def)

lemma normalize_above: "lo < hi \<Longrightarrow> hi \<le> v \<Longrightarrow> normalize v lo hi = 1"
  by (simp add: normalize_def min_def max_def)

lemma normalize_equal_bounds: "normalize v lo lo = 0"
  by (simp add: normalize_def)

text \<open>
  C8, as stated, fails where the two bounds are equal: the guard of \<^verbatim>\<open>normalize\<close>
  returns 0 there, also for a value at or above the upper bound.
\<close>

theorem normalize_equal_bounds_counterexample:
  "(3::real) \<le> 3 \<and> (3::real) \<le> 5 \<and> normalize 5 3 3 \<noteq> 1"
  by (simp add: normalize_def)

text \<open>
  C8 (amended): for all bounds \<open>lo \<le> hi\<close>, \<^verbatim>\<open>normalize\<close> is monotonic non-decreasing
  in its first argument and returns 0 for every value at or below \<open>lo\<close>; for a value at or
  above \<open>hi\<close> it returns 1 when \<open>lo < hi\<close> and 0 when \<open>lo = hi\<close>.
\<close>

theorem normalize_monotone_bounds:
  assumes "lo \<le> hi"
  shows "(v \<le> w \<longrightarrow> normalize v lo hi \<le> normalize w lo hi)
       \<and> (v \<le> lo \<longrightarrow> normalize v lo hi = 0)
       \<and> (hi \<le> w \<longrightarrow> normalize w lo hi = (if lo < hi then 1 else 0))"
proof (intro conjI impI)
  assume "v \<le> w"
  with assms show "normalize v lo hi \<le> normalize w lo hi" by (rule normalize_mono)
next
  assume "v \<le> lo"
  with assms show "normalize v lo hi = 0" by (rule normalize_below)
next
  assume "hi \<le> w"
  show "normalize w lo hi = (if lo < hi then 1 else 0)"
  proof (cases "lo < hi")
    case True
    then show ?thesis using \<open>hi \<le> w\<close> by (simp add: normalize_above)
  next
    case False
    with assms have "hi = lo" by simp
    then show ?thesis by (simp add: normalize_equal_bounds)
  qed
qed

theorem normalize_monotone_bounds_witness:
  "(0::real) \<le> 7 \<and> (- 1::real) \<le> 9 \<and> normalize (- 1) 0 7 \<le> normalize 9 0 7
   \<and> normalize (- 1) 0 7 = 0 \<and> normalize 9 0 7 = 1"
  using normalize_monotone_bounds [of 0 7 "- 1" 9] by simp

subsection \<open>calculate\_satisfaction\<close>

lemma normalize_spec: "lo < hi \<Longrightarrow> normalize v lo hi = spec_normalize v lo hi"
  by (simp add: normalize_def spec_normalize_def min_def max_def)

lemma spec_normalize_range: "lo < hi \<Longrightarrow> 0 \<le> spec_normalize v lo hi \<and> spec_normalize v lo hi \<le> 1"
  by (simp add: spec_normalize_def)

lemma calculate_satisfaction_eq:
  "calculate_satisfaction p a uc mc b =
     WEIGHT_FINANCIAL * norm_liquidity p uc mc + WEIGHT_ENVIRONMENT * norm_rating a b
       + WEIGHT_COMFORT * norm_quality a"
proof -
  have "normalize (of_int (savings p - uc - mc)) (of_int MIN_WEALTH) (of_int MAX_WEALTH)
          = norm_liquidity p uc mc"
    unfolding norm_liquidity_def by (rule normalize_spec) (simp add: model_consts)
  moreover have "normalize (of_int (min (energy_label a + b) 7)) 0 7 = norm_rating a b"
    unfolding norm_rating_def by (rule normalize_spec) simp
  moreover have "normalize (quality a) 0 MAX_QUALITY = norm_quality a"
    unfolding norm_quality_def by (rule normalize_spec) (simp add: model_consts)
  ultimately show ?thesis
    by (simp add: calculate_satisfaction_def Let_def)
qed

lemma norm_liquidity_range: "0 \<le> norm_liquidity p uc mc \<and> norm_liquidity p uc mc \<le> 1"
  unfolding norm_liquidity_def by (rule spec_normalize_range) (simp add: model_consts)

lemma norm_rating_range: "0 \<le> norm_rating a b \<and> norm_rating a b \<le> 1"
  unfolding norm_rating_def by (rule spec_normalize_range) simp

lemma norm_quality_range: "0 \<le> norm_quality a \<and> norm_quality a \<le> 1"
  unfolding norm_quality_def by (rule spec_normalize_range) (simp add: model_consts)

lemma calculate_satisfaction_nonneg: "0 \<le> calculate_satisfaction p a uc mc b"
  using norm_liquidity_range [of p uc mc] norm_rating_range [of a b] norm_quality_range [of a]
  by (simp add: calculate_satisfaction_eq model_consts)

lemma calculate_satisfaction_le_one: "calculate_satisfaction p a uc mc b \<le> 1"
  using norm_liquidity_range [of p uc mc] norm_rating_range [of a b] norm_quality_range [of a]
  by (simp add: calculate_satisfaction_eq model_consts)

subsection \<open>The scores in floating point\<close>

lemma roundoff_bounds: "0 \<le> roundoff" "11 * roundoff \<le> 1 / 2 ^ 40" "roundoff \<le> 1 / 100"
  by (simp_all add: roundoff_def)

lemma round_to_even_close: "\<bar>of_int (round_to_even y) - y\<bar> \<le> 1 / 2"
  unfolding round_to_even_def Let_def by (auto simp: abs_if) linarith+

lemma round_to_even_nonneg: "0 \<le> y \<Longrightarrow> 0 \<le> round_to_even y"
  unfolding round_to_even_def Let_def by auto

lemma round_to_even_le: "y \<le> of_int n \<Longrightarrow> round_to_even y \<le> n"
  unfolding round_to_even_def Let_def by (auto simp: floor_le_iff)

lemma ulp_pos: "0 < ulp x"
  by (simp add: ulp_def)

lemma double_nonneg: "0 \<le> x \<Longrightarrow> 0 \<le> double x"
  using ulp_pos [of x] by (simp add: double_def round_to_even_nonneg)

lemma double_le_one:
  assumes "0 \<le> x" and "x \<le> 1"
  shows "double x \<le> 1"
proof (cases "x = 0")
  case True
  then show ?thesis by (simp add: double_def)
next
  case False
  with assms have pos: "0 < x" by simp
  define E where "E = max \<lfloor>log 2 \<bar>x\<bar>\<rfloor> (- 1022)"
  define k where "k = nat (52 - E)"
  from pos assms(2) have "log 2 \<bar>x\<bar> \<le> 0" by simp
  then have "\<lfloor>log 2 \<bar>x\<bar>\<rfloor> \<le> 0" by (simp add: floor_le_iff)
  then have E: "E \<le> 0" by (simp add: E_def)
  then have "E - 52 = - int k" by (simp add: k_def)
  then have u: "ulp x = 1 / 2 ^ k"
    by (simp add: ulp_def E_def [symmetric] power_int_minus_divide)
  have "x / ulp x = x * 2 ^ k" by (simp add: u)
  also have "\<dots> \<le> 1 * 2 ^ k" using assms(2) by (intro mult_right_mono) simp_all
  finally have "x / ulp x \<le> of_int (2 ^ k)" by simp
  then have "round_to_even (x / ulp x) \<le> 2 ^ k" by (rule round_to_even_le)
  then have "(of_int (round_to_even (x / ulp x)) :: real) \<le> of_int (2 ^ k)"
    by (simp only: of_int_le_iff)
  then have "of_int (round_to_even (x / ulp x)) * ulp x \<le> of_int (2 ^ k) * ulp x"
    using ulp_pos [of x] by (intro mult_right_mono) simp_all
  also have "\<dots> = 1" by (simp add: u)
  finally show ?thesis using False by (simp add: double_def)
qed

lemma double_close:
  assumes "\<bar>x\<bar> \<le> 2"
  shows "\<bar>double x - x\<bar> \<le> roundoff"
proof (cases "x = 0")
  case True
  then show ?thesis by (simp add: double_def roundoff_def)
next
  case False
  then have "0 < \<bar>x\<bar>" by simp
  with assms have "log 2 \<bar>x\<bar> \<le> 1" by simp
  then have "\<lfloor>log 2 \<bar>x\<bar>\<rfloor> \<le> 1" by (simp add: floor_le_iff)
  then have "max \<lfloor>log 2 \<bar>x\<bar>\<rfloor> (- 1022) - 52 \<le> - 51" by simp
  then have "ulp x \<le> 2 powi (- 51)" unfolding ulp_def by (rule power_int_increasing) simp
  then have u: "ulp x \<le> 1 / 2 ^ 51" by (simp add: power_int_minus_divide)
  have "double x - x = (of_int (round_to_even (x / ulp x)) - x / ulp x) * ulp x"
    using False ulp_pos [of x] by (simp add: double_def algebra_simps)
  then have "\<bar>double x - x\<bar> = \<bar>of_int (round_to_even (x / ulp x)) - x / ulp x\<bar> * ulp x"
    using ulp_pos [of x] by (simp add: abs_mult)
  also have "\<dots> \<le> 1 / 2 * (1 / 2 ^ 51)"
    using round_to_even_close u ulp_pos [of x] by (intro mult_mono) simp_all
  also have "\<dots> \<le> roundoff" by (simp add: roundoff_def)
  finally show ?thesis .
qed

text \<open>The rounding to a double has the three properties.\<close>

lemma rounding_double: "rounding double"
  unfolding rounding_def using double_nonneg double_le_one double_close by blast

lemma roundingD:
  assumes "rounding rnd"
  shows "0 \<le> x \<Longrightarrow> 0 \<le> rnd x" and "0 \<le> x \<Longrightarrow> x \<le> 1 \<Longrightarrow> rnd x \<le> 1"
    and "\<bar>x\<bar> \<le> 2 \<Longrightarrow> \<bar>rnd x - x\<bar> \<le> roundoff"
  using assms unfolding rounding_def by blast+

lemma rounding_unit:
  assumes R: "rounding rnd" and x: "0 \<le> x" "x \<le> 1"
  shows "0 \<le> rnd x" and "rnd x \<le> 1" and "\<bar>rnd x - x\<bar> \<le> roundoff"
proof -
  from x(1) show "0 \<le> rnd x" by (rule roundingD(1) [OF R])
  from x show "rnd x \<le> 1" by (rule roundingD(2) [OF R])
  from x have "\<bar>x\<bar> \<le> 2" by simp
  then show "\<bar>rnd x - x\<bar> \<le> roundoff" by (rule roundingD(3) [OF R])
qed

lemma rounding_nonneg: "rounding rnd \<Longrightarrow> 0 \<le> x \<Longrightarrow> 0 \<le> rnd x"
  by (rule roundingD(1))

lemma normalize_unit: "lo < hi \<Longrightarrow> 0 \<le> normalize v lo hi \<and> normalize v lo hi \<le> 1"
  by (simp add: normalize_nonneg normalize_le_one)

lemma normalize_fl_eq: "lo < hi \<Longrightarrow> normalize_fl rnd v lo hi = rnd (normalize v lo hi)"
  by (simp add: normalize_fl_def normalize_def)

lemma normalize_fl_unit:
  assumes "rounding rnd" and "lo < hi"
  shows "0 \<le> normalize_fl rnd v lo hi" and "normalize_fl rnd v lo hi \<le> 1"
    and "\<bar>normalize_fl rnd v lo hi - normalize v lo hi\<bar> \<le> roundoff"
  using rounding_unit [OF assms(1), of "normalize v lo hi"] normalize_unit [OF assms(2), of v]
  by (simp_all add: normalize_fl_eq [OF assms(2)])

text \<open>A rounded product of a rounded weight and a rounded normalised term.\<close>

lemma rounded_product:
  assumes R: "rounding rnd" and w: "0 \<le> w" "w \<le> 1"
    and n: "0 \<le> n" "n \<le> 1" and n': "0 \<le> n'" "n' \<le> 1" "\<bar>n' - n\<bar> \<le> roundoff"
  shows "0 \<le> rnd (rnd w * n')" and "rnd (rnd w * n') \<le> 1"
    and "\<bar>rnd (rnd w * n') - w * n\<bar> \<le> 3 * roundoff"
proof -
  note rw = rounding_unit [OF R w]
  have p0: "0 \<le> rnd w * n'" using rw(1) n'(1) by simp
  have p1: "rnd w * n' \<le> 1" using mult_mono [OF rw(2) n'(2) _ n'(1)] rw(1) by simp
  note rp = rounding_unit [OF R p0 p1]
  from rp show "0 \<le> rnd (rnd w * n')" "rnd (rnd w * n') \<le> 1" by simp_all
  have "rnd w * n' - w * n = (rnd w - w) * n' + w * (n' - n)" by (simp add: algebra_simps)
  then have "\<bar>rnd w * n' - w * n\<bar> \<le> \<bar>rnd w - w\<bar> * \<bar>n'\<bar> + \<bar>w\<bar> * \<bar>n' - n\<bar>"
    by (simp add: abs_mult [symmetric])
  also have "\<dots> \<le> roundoff * 1 + 1 * roundoff"
  proof (rule add_mono)
    show "\<bar>rnd w - w\<bar> * \<bar>n'\<bar> \<le> roundoff * 1"
      using rw(3) n'(1,2) by (intro mult_mono) simp_all
    show "\<bar>w\<bar> * \<bar>n' - n\<bar> \<le> 1 * roundoff"
      using w n'(3) by (intro mult_mono) simp_all
  qed
  finally have "\<bar>rnd w * n' - w * n\<bar> \<le> 2 * roundoff" by simp
  with rp(3) show "\<bar>rnd (rnd w * n') - w * n\<bar> \<le> 3 * roundoff" by linarith
qed

lemma calculate_satisfaction_fl_bounds:
  assumes R: "rounding rnd"
  shows "0 \<le> calculate_satisfaction_fl rnd p a uc mc b"
    and "\<bar>calculate_satisfaction_fl rnd p a uc mc b - calculate_satisfaction p a uc mc b\<bar>
           \<le> 1 / 2 ^ 40"
proof -
  define nf where "nf = normalize (of_int (savings p - uc - mc)) (of_int MIN_WEALTH) (of_int MAX_WEALTH)"
  define ne where "ne = normalize (of_int (min (energy_label a + b) 7)) 0 7"
  define nq where "nq = normalize (quality a) 0 MAX_QUALITY"
  define nf' where "nf' = normalize_fl rnd (of_int (savings p - uc - mc)) (of_int MIN_WEALTH) (of_int MAX_WEALTH)"
  define ne' where "ne' = normalize_fl rnd (of_int (min (energy_label a + b) 7)) 0 7"
  define nq' where "nq' = normalize_fl rnd (quality a) 0 MAX_QUALITY"
  define pf where "pf = rnd (rnd WEIGHT_FINANCIAL * nf')"
  define pe where "pe = rnd (rnd WEIGHT_ENVIRONMENT * ne')"
  define pq where "pq = rnd (rnd WEIGHT_COMFORT * nq')"
  define xf where "xf = WEIGHT_FINANCIAL * nf"
  define xe where "xe = WEIGHT_ENVIRONMENT * ne"
  define xq where "xq = WEIGHT_COMFORT * nq"
  have lt: "(of_int MIN_WEALTH :: real) < of_int MAX_WEALTH" "(0::real) < 7" "0 < MAX_QUALITY"
    by (simp_all add: model_consts)
  have u: "0 \<le> nf" "nf \<le> 1" "0 \<le> ne" "ne \<le> 1" "0 \<le> nq" "nq \<le> 1"
    unfolding nf_def ne_def nq_def using normalize_unit lt by simp_all
  have u': "0 \<le> nf'" "nf' \<le> 1" "\<bar>nf' - nf\<bar> \<le> roundoff"
    "0 \<le> ne'" "ne' \<le> 1" "\<bar>ne' - ne\<bar> \<le> roundoff"
    "0 \<le> nq'" "nq' \<le> 1" "\<bar>nq' - nq\<bar> \<le> roundoff"
    unfolding nf_def ne_def nq_def nf'_def ne'_def nq'_def
    using normalize_fl_unit [OF R lt(1)] normalize_fl_unit [OF R lt(2)]
      normalize_fl_unit [OF R lt(3)] by simp_all
  have w: "0 \<le> WEIGHT_FINANCIAL" "WEIGHT_FINANCIAL \<le> 1" "0 \<le> WEIGHT_ENVIRONMENT"
    "WEIGHT_ENVIRONMENT \<le> 1" "0 \<le> WEIGHT_COMFORT" "WEIGHT_COMFORT \<le> 1"
    by (simp_all add: model_consts)
  note f = rounded_product [OF R w(1,2) u(1,2) u'(1,2,3), folded pf_def xf_def]
  note e = rounded_product [OF R w(3,4) u(3,4) u'(4,5,6), folded pe_def xe_def]
  note q = rounded_product [OF R w(5,6) u(5,6) u'(7,8,9), folded pq_def xq_def]
  have fl: "calculate_satisfaction_fl rnd p a uc mc b = rnd (rnd (pf + pe) + pq)"
    by (simp add: calculate_satisfaction_fl_def Let_def pf_def pe_def pq_def nf'_def ne'_def nq'_def)
  have ex: "calculate_satisfaction p a uc mc b = xf + xe + xq"
    by (simp add: calculate_satisfaction_def Let_def nf_def ne_def nq_def xf_def xe_def xq_def)
  have s1: "0 \<le> pf + pe" "\<bar>pf + pe\<bar> \<le> 2" using f(1,2) e(1,2) by simp_all
  have r1: "0 \<le> rnd (pf + pe)" using R s1(1) by (rule rounding_nonneg)
  note a1 = roundingD(3) [OF R s1(2)]
  have wf: "xf \<le> 4 / 10" "xe \<le> 3 / 10"
    using u by (simp_all add: model_consts xf_def xe_def)
  have up1: "rnd (pf + pe) \<le> 1" using a1 f(3) e(3) wf roundoff_bounds(3) by linarith
  have s2: "0 \<le> rnd (pf + pe) + pq" "\<bar>rnd (pf + pe) + pq\<bar> \<le> 2"
    using r1 up1 q(1,2) by simp_all
  note a2 = roundingD(3) [OF R s2(2)]
  show "0 \<le> calculate_satisfaction_fl rnd p a uc mc b"
    unfolding fl using R s2(1) by (rule rounding_nonneg)
  have "\<bar>rnd (rnd (pf + pe) + pq) - (xf + xe + xq)\<bar> \<le> 11 * roundoff"
    using a1 a2 f(3) e(3) q(3) by linarith
  also have "11 * roundoff \<le> 1 / 2 ^ 40" by (rule roundoff_bounds)
  finally show "\<bar>calculate_satisfaction_fl rnd p a uc mc b - calculate_satisfaction p a uc mc b\<bar>
           \<le> 1 / 2 ^ 40" unfolding fl ex .
qed

text \<open>Scores that differ by more than the rounding errors keep their order.\<close>

lemma score_gt:
  assumes "rounding rnd"
    and "calculate_satisfaction p' a' uc' mc' b' + 1 / 1000 < calculate_satisfaction p a uc mc b"
  shows "calculate_satisfaction_fl rnd p' a' uc' mc' b' < calculate_satisfaction_fl rnd p a uc mc b"
proof -
  have "(1::real) / 2 ^ 40 < 1 / 2000" by simp
  with calculate_satisfaction_fl_bounds(2) [OF assms(1), of p a uc mc b]
    calculate_satisfaction_fl_bounds(2) [OF assms(1), of p' a' uc' mc' b'] assms(2)
  show ?thesis by linarith
qed


section \<open>The decision of one home owner\<close>

lemma scan_market_result:
  assumes "scan_market rnd hh self pool (b, s) = (b', s')"
  defines "cands \<equiv> filter (\<lambda>h. market_value (hh h)
                      \<le> savings self + calculate_mortgage_capacity (income self)) pool"
  defines "score \<equiv> \<lambda>h. calculate_satisfaction_fl rnd self (hh h) 0 MOVING_COST_FIXED 0"
  shows "s \<le> s' \<and> (\<forall>h \<in> set cands. score h \<le> s')
       \<and> ((b' = b \<and> s' = s) \<or> (\<exists>h \<in> set cands. b' = Some h \<and> s' = score h \<and> s < score h))"
  using assms(1) unfolding cands_def score_def
proof (induction pool arbitrary: b s)
  case Nil
  then show ?case by simp
next
  case (Cons h pool)
  show ?case
  proof (cases "market_value (hh h) \<le> savings self + calculate_mortgage_capacity (income self)")
    case False
    with Cons.prems have "scan_market rnd hh self pool (b, s) = (b', s')" by simp
    from Cons.IH [OF this] False show ?thesis by simp
  next
    case aff: True
    show ?thesis
    proof (cases "calculate_satisfaction_fl rnd self (hh h) 0 MOVING_COST_FIXED 0 > s")
      case True
      with aff Cons.prems
      have "scan_market rnd hh self pool
              (Some h, calculate_satisfaction_fl rnd self (hh h) 0 MOVING_COST_FIXED 0) = (b', s')"
        by (simp add: Let_def)
      from Cons.IH [OF this] aff True show ?thesis by fastforce
    next
      case False
      with aff Cons.prems have "scan_market rnd hh self pool (b, s) = (b', s')"
        by (simp add: Let_def)
      from Cons.IH [OF this] aff False show ?thesis by fastforce
    qed
  qed
qed

lemma market_scan_result:
  assumes "market_scan rnd m r = (b', s')" and R: "rounding rnd"
  shows "s' = best_buy_score rnd m r"
    and "affordable_pool m r = [] \<Longrightarrow> b' = None"
    and "affordable_pool m r \<noteq> [] \<Longrightarrow>
           \<exists>h \<in> set (affordable_pool m r). b' = Some h \<and> buy_score rnd m r h = s'"
    and "\<forall>h \<in> set (affordable_pool m r). buy_score rnd m r h \<le> s'"
proof -
  from assms(1) have scan:
    "scan_market rnd (house_heap m) (owner_heap m r) (vacancy_pool m) (None, - 999) = (b', s')"
    by (simp add: market_scan_def)
  note res = scan_market_result [OF scan, folded financial_capacity_def,
      folded affordable_pool_def buy_score_def]
  from res show ub: "\<forall>h \<in> set (affordable_pool m r). buy_score rnd m r h \<le> s'" by simp
  show none: "b' = None" if "affordable_pool m r = []"
    using res that by simp
  show some: "\<exists>h \<in> set (affordable_pool m r). b' = Some h \<and> buy_score rnd m r h = s'"
    if ne: "affordable_pool m r \<noteq> []"
  proof -
    from ne obtain h where h: "h \<in> set (affordable_pool m r)" by (cases "affordable_pool m r") auto
    have "0 \<le> buy_score rnd m r h"
      by (simp add: buy_score_def calculate_satisfaction_fl_bounds(1) [OF R])
    with ub h have "0 \<le> s'" by force
    with res show ?thesis by auto
  qed
  show "s' = best_buy_score rnd m r"
  proof (cases "affordable_pool m r = []")
    case True
    with res show ?thesis by (simp add: best_buy_score_def)
  next
    case False
    from some [OF False] obtain h where h: "h \<in> set (affordable_pool m r)" "buy_score rnd m r h = s'"
      by blast
    have "Max (set (map (buy_score rnd m r) (affordable_pool m r))) = s'"
    proof (rule Max_eqI)
      show "finite (set (map (buy_score rnd m r) (affordable_pool m r)))" by simp
      show "y \<le> s'" if "y \<in> set (map (buy_score rnd m r) (affordable_pool m r))" for y
        using that ub by auto
      show "s' \<in> set (map (buy_score rnd m r) (affordable_pool m r))" using h by force
    qed
    with False show ?thesis by (simp add: best_buy_score_def)
  qed
qed

lemma S_current_nonneg: "rounding rnd \<Longrightarrow> 0 \<le> S_current rnd m r"
  by (simp add: S_current_def calculate_satisfaction_fl_bounds(1))

lemma HomeOwner_step_cases:
  assumes R: "rounding rnd"
  shows "HomeOwner_step rnd m r =
     (if best_buy_score rnd m r > S_upgrade rnd m r \<and> best_buy_score rnd m r > S_current rnd m r
      then (case fst (market_scan rnd m r) of
              None \<Rightarrow> Inl AttributeError
            | Some b \<Rightarrow> Inr (set_intention m r BUY (Some (unique_id (house_heap m b)))))
      else if S_upgrade rnd m r > S_current rnd m r then Inr (set_intention m r UPGRADE None)
      else Inr (set_intention m r STAY None))"
proof -
  obtain b s where bs: "market_scan rnd m r = (b, s)" by (cases "market_scan rnd m r")
  from market_scan_result(1) [OF bs R] bs show ?thesis
    by (simp add: HomeOwner_step_def)
qed

lemma best_buy_target:
  assumes "best_buy_score rnd m r > S_current rnd m r" and R: "rounding rnd"
  shows "\<exists>b \<in> set (affordable_pool m r).
           fst (market_scan rnd m r) = Some b \<and> buy_score rnd m r b = best_buy_score rnd m r
           \<and> (\<forall>h \<in> set (affordable_pool m r). buy_score rnd m r h \<le> buy_score rnd m r b)"
proof -
  obtain b' s' where bs: "market_scan rnd m r = (b', s')" by (cases "market_scan rnd m r")
  note res = market_scan_result [OF bs R]
  have "affordable_pool m r \<noteq> []"
  proof
    assume "affordable_pool m r = []"
    then have "best_buy_score rnd m r = - 999" by (simp add: best_buy_score_def)
    with assms(1) S_current_nonneg [OF R, of m r] show False by simp
  qed
  from res(3) [OF this] obtain h where
    h: "h \<in> set (affordable_pool m r)" "b' = Some h" "buy_score rnd m r h = s'" by blast
  with res(1) res(4) bs show ?thesis by auto
qed

subsection \<open>A small market\<close>

lemma best_buy_single: "affordable_pool m r = [t] \<Longrightarrow> best_buy_score rnd m r = buy_score rnd m r t"
  by (simp add: best_buy_score_def)

lemma best_buy_none: "affordable_pool m r = [] \<Longrightarrow> best_buy_score rnd m r = - 999"
  by (simp add: best_buy_score_def)

lemmas score_simps =
  calculate_satisfaction_def normalize_def calculate_mortgage_capacity_def Let_def

lemmas example_simps =
  example_model_def new_HomeOwner_def new_House_def affordable_pool_def buy_score_def
  financial_capacity_def S_current_def S_upgrade_def calculate_mortgage_capacity_def Let_def

text \<open>
  C3: with the scores computed in doubles (or under any rounding with the three
  properties), the step of a home owner always returns; it selects \<open>BUY\<close>, with the identifier of
  a best-scoring affordable house of the vacancy pool as target, exactly when the best buy
  score is strictly greater than both the upgrade score and the stay score; otherwise
  \<open>UPGRADE\<close> exactly when the upgrade score is strictly greater than the stay score;
  otherwise \<open>STAY\<close>. Nothing but the owner's intention and target changes.
\<close>

theorem decision_engine_selection:
  assumes R: "rounding rnd"
  shows "\<exists>i t. HomeOwner_step rnd m r = Inr (set_intention m r i t)
     \<and> (i = BUY \<longleftrightarrow>
          best_buy_score rnd m r > S_upgrade rnd m r \<and> best_buy_score rnd m r > S_current rnd m r)
     \<and> (i = UPGRADE \<longleftrightarrow>
          \<not> (best_buy_score rnd m r > S_upgrade rnd m r \<and> best_buy_score rnd m r > S_current rnd m r)
          \<and> S_upgrade rnd m r > S_current rnd m r)
     \<and> (i = STAY \<longleftrightarrow>
          \<not> (best_buy_score rnd m r > S_upgrade rnd m r \<and> best_buy_score rnd m r > S_current rnd m r)
          \<and> \<not> S_upgrade rnd m r > S_current rnd m r)
     \<and> (i = BUY \<longrightarrow>
          (\<exists>b \<in> set (affordable_pool m r).
             t = Some (unique_id (house_heap m b))
             \<and> buy_score rnd m r b = best_buy_score rnd m r
             \<and> (\<forall>h \<in> set (affordable_pool m r). buy_score rnd m r h \<le> buy_score rnd m r b)))
     \<and> (i \<noteq> BUY \<longrightarrow> t = None)"
proof (cases "best_buy_score rnd m r > S_upgrade rnd m r \<and> best_buy_score rnd m r > S_current rnd m r")
  case True
  then have "best_buy_score rnd m r > S_current rnd m r" by simp
  from best_buy_target [OF this R] obtain b where
    b: "b \<in> set (affordable_pool m r)" "fst (market_scan rnd m r) = Some b"
       "buy_score rnd m r b = best_buy_score rnd m r"
       "\<forall>h \<in> set (affordable_pool m r). buy_score rnd m r h \<le> buy_score rnd m r b"
    by blast
  from True b(2) have
    "HomeOwner_step rnd m r = Inr (set_intention m r BUY (Some (unique_id (house_heap m b))))"
    by (simp add: HomeOwner_step_cases [OF R])
  with True b show ?thesis by blast
next
  case nobuy: False
  show ?thesis
  proof (cases "S_upgrade rnd m r > S_current rnd m r")
    case True
    with nobuy have "HomeOwner_step rnd m r = Inr (set_intention m r UPGRADE None)"
      by (auto simp add: HomeOwner_step_cases [OF R])
    with nobuy True show ?thesis by auto
  next
    case False
    with nobuy have "HomeOwner_step rnd m r = Inr (set_intention m r STAY None)"
      by (auto simp add: HomeOwner_step_cases [OF R])
    with nobuy False show ?thesis by auto
  qed
qed

lemma ex_scores:
  assumes R: "rounding rnd"
  shows "best_buy_score rnd example_model 0 > S_upgrade rnd example_model 0"
    and "best_buy_score rnd example_model 0 > S_current rnd example_model 0"
    and "affordable_pool example_model 0 = [2]"
proof -
  show a: "affordable_pool example_model 0 = [2]" by (simp add: example_simps)
  show "best_buy_score rnd example_model 0 > S_upgrade rnd example_model 0"
    unfolding best_buy_single [OF a]
    by (simp add: example_simps model_consts) (rule score_gt [OF R], simp add: score_simps model_consts)
  show "best_buy_score rnd example_model 0 > S_current rnd example_model 0"
    unfolding best_buy_single [OF a]
    by (simp add: example_simps model_consts) (rule score_gt [OF R], simp add: score_simps model_consts)
qed

theorem decision_engine_selection_witness:
  "rounding double
   \<and> HomeOwner_step double example_model 0 = Inr (set_intention example_model 0 BUY (Some 2))
   \<and> best_buy_score double example_model 0 > S_upgrade double example_model 0
   \<and> best_buy_score double example_model 0 > S_current double example_model 0
   \<and> buy_score double example_model 0 2 = best_buy_score double example_model 0"
proof -
  from decision_engine_selection [OF rounding_double, of example_model 0] obtain i t where
    it: "HomeOwner_step double example_model 0 = Inr (set_intention example_model 0 i t)"
        "i = BUY \<longleftrightarrow> best_buy_score double example_model 0 > S_upgrade double example_model 0
                    \<and> best_buy_score double example_model 0 > S_current double example_model 0"
        "i = BUY \<longrightarrow> (\<exists>b \<in> set (affordable_pool example_model 0).
             t = Some (unique_id (house_heap example_model b))
             \<and> buy_score double example_model 0 b = best_buy_score double example_model 0)"
    by blast
  note ex = ex_scores [OF rounding_double]
  from it(2) ex have "i = BUY" by simp
  with it(3) ex(3) have "t = Some (unique_id (house_heap example_model 2))"
    "buy_score double example_model 0 2 = best_buy_score double example_model 0" by simp_all
  moreover have "unique_id (house_heap example_model 2) = 2" by (simp add: example_simps)
  ultimately show ?thesis using rounding_double it(1) \<open>i = BUY\<close> ex by simp
qed

lemma S_upgrade_sentinel:
  "savings (owner_heap m r) \<le> COST_PER_LABEL_UPGRADE
     \<or> energy_label (house_heap m (house (owner_heap m r))) \<ge> 7 \<Longrightarrow> S_upgrade rnd m r = - 999"
  by (auto simp: S_upgrade_def Let_def)

text \<open>
  C6: when the owner's savings are at most the upgrade cost, or the energy label of the
  owner's house is 7, the upgrade score is the low default, the stay score is at least 0,
  and the step does not select \<open>UPGRADE\<close>.
\<close>

theorem never_upgrade_when_ineligible:
  assumes "savings (owner_heap m r) \<le> COST_PER_LABEL_UPGRADE
           \<or> energy_label (house_heap m (house (owner_heap m r))) = 7"
    and R: "rounding rnd"
  shows "S_upgrade rnd m r = - 999 \<and> 0 \<le> S_current rnd m r \<and> \<not> S_upgrade rnd m r > S_current rnd m r
         \<and> (\<exists>m'. HomeOwner_step rnd m r = Inr m' \<and> intention (owner_heap m' r) \<noteq> UPGRADE)"
proof -
  from assms(1) have up: "S_upgrade rnd m r = - 999" by (auto intro: S_upgrade_sentinel)
  have cur: "0 \<le> S_current rnd m r" using R by (rule S_current_nonneg)
  from up cur have no: "\<not> S_upgrade rnd m r > S_current rnd m r" by simp
  show ?thesis
  proof (cases "best_buy_score rnd m r > S_upgrade rnd m r \<and> best_buy_score rnd m r > S_current rnd m r")
    case True
    then have "best_buy_score rnd m r > S_current rnd m r" by simp
    from best_buy_target [OF this R] obtain b where "fst (market_scan rnd m r) = Some b" by blast
    with True have
      "HomeOwner_step rnd m r = Inr (set_intention m r BUY (Some (unique_id (house_heap m b))))"
      by (simp add: HomeOwner_step_cases [OF R])
    then show ?thesis using up cur no by (simp add: set_intention_def)
  next
    case False
    with no have "HomeOwner_step rnd m r = Inr (set_intention m r STAY None)"
      by (auto simp add: HomeOwner_step_cases [OF R])
    then show ?thesis using up cur no by (simp add: set_intention_def)
  qed
qed

theorem never_upgrade_when_ineligible_witness:
  "rounding double
   \<and> savings (owner_heap example_poor 1) \<le> COST_PER_LABEL_UPGRADE
   \<and> S_upgrade double example_poor 1 = - 999
   \<and> (\<exists>m'. HomeOwner_step double example_poor 1 = Inr m' \<and> intention (owner_heap m' 1) \<noteq> UPGRADE)"
proof -
  have h: "savings (owner_heap example_poor 1) \<le> COST_PER_LABEL_UPGRADE"
    by (simp add: example_poor_def example_simps model_consts)
  then have "savings (owner_heap example_poor 1) \<le> COST_PER_LABEL_UPGRADE
     \<or> energy_label (house_heap example_poor (house (owner_heap example_poor 1))) = 7" ..
  from never_upgrade_when_ineligible [OF this rounding_double] h rounding_double show ?thesis by simp
qed

section \<open>The invariant of the world state\<close>

lemmas wf_defs = wf_model_def asset_inv_def vacant_xor_owned_def pool_exact_def ids_ok_def
  owners_linked_def houses_linked_def labels_ok_def

subsection \<open>Moves\<close>

lemma execute_move_Some:
  "house_map m k = Some t \<Longrightarrow> execute_move m buyer (Some k) = Inr (move_to m buyer t)"
  by (simp add: execute_move_def move_to_def Let_def)

lemma execute_move_cases:
  "execute_move m buyer hid =
     (case hid of None \<Rightarrow> Inl KeyError
      | Some k \<Rightarrow> (case house_map m k of None \<Rightarrow> Inl KeyError
                   | Some t \<Rightarrow> Inr (move_to m buyer t)))"
  by (simp add: execute_move_def move_to_def Let_def split: option.splits)

lemma move_to_simps [simp]:
  "agents (move_to m b t) = agents m"
  "house_map (move_to m b t) = house_map m"
  "houses (move_to m b t) = houses m"
  "owner_heap (move_to m b t) a =
     (if a = b then (owner_heap m b)\<lparr>savings := savings (owner_heap m b) - MOVING_COST_FIXED,
                                     house := t\<rparr>
      else owner_heap m a)"
  "house_heap (move_to m b t) h =
     (if h = t then (house_heap m t)\<lparr>owner := Some b, is_vacant := False\<rparr>
      else if h = house (owner_heap m b)
           then (house_heap m h)\<lparr>owner := None, is_vacant := True\<rparr>
      else house_heap m h)"
  by (simp_all add: move_to_def Let_def houses_def)

lemma move_to_pool:
  "vacancy_pool (move_to m b t) =
     (if t \<in> set (vacancy_pool m) \<or> t = house (owner_heap m b)
      then remove1 t (vacancy_pool m @ [house (owner_heap m b)])
      else vacancy_pool m @ [house (owner_heap m b)])"
  by (simp add: move_to_def Let_def)

lemma wf_modelD:
  assumes "wf_model m"
  shows "vacant_xor_owned m" "pool_exact m" "distinct (vacancy_pool m)" "ids_ok m"
    "distinct (agents m)" "owners_linked m" "houses_linked m" "labels_ok m"
  using assms by (simp_all add: wf_model_def asset_inv_def)

lemma move_to_wf:
  assumes wf: "wf_model m" and buyer: "buyer \<in> set (agents m)"
    and t: "t \<in> set (vacancy_pool m)"
  shows "wf_model (move_to m buyer t)"
proof -
  let ?o = "house (owner_heap m buyer)"
  let ?m = "move_to m buyer t"
  note c = wf_modelD [OF wf]
  from c(6) buyer have o: "?o \<in> houses m" "owner (house_heap m ?o) = Some buyer"
    by (auto simp: owners_linked_def)
  with c(1) have "\<not> is_vacant (house_heap m ?o)" by (auto simp: vacant_xor_owned_def)
  with c(2) have o_pool: "?o \<notin> set (vacancy_pool m)" by (auto simp: pool_exact_def)
  from c(2) t have th: "t \<in> houses m" "is_vacant (house_heap m t)"
    by (auto simp: pool_exact_def)
  with c(1) have tn: "owner (house_heap m t) = None" by (auto simp: vacant_xor_owned_def)
  with o have neq: "t \<noteq> ?o" by auto
  have pool: "vacancy_pool ?m = remove1 t (vacancy_pool m @ [?o])"
    using t by (simp add: move_to_pool)
  have dpo: "distinct (vacancy_pool m @ [?o])" using c(3) o_pool by simp
  have setpool: "set (vacancy_pool ?m) = (set (vacancy_pool m) \<union> {?o}) - {t}"
    unfolding pool using dpo by (simp only: set_remove1_eq) simp
  have 1: "vacant_xor_owned ?m"
    using c(1) unfolding vacant_xor_owned_def by simp
  have 2: "pool_exact ?m"
    unfolding pool_exact_def setpool using c(2) o th neq unfolding pool_exact_def by auto
  have 3: "distinct (vacancy_pool ?m)"
    unfolding pool using dpo by (rule distinct_remove1)
  have 4: "ids_ok ?m" using c(4) unfolding ids_ok_def by simp
  have 5: "distinct (agents ?m)" using c(5) by simp
  have 6: "owners_linked ?m"
    unfolding owners_linked_def
  proof
    fix a assume a: "a \<in> set (agents ?m)"
    show "house (owner_heap ?m a) \<in> houses ?m \<and>
          owner (house_heap ?m (house (owner_heap ?m a))) = Some a"
    proof (cases "a = buyer")
      case True
      then show ?thesis using th by simp
    next
      case False
      from a c(6) have ha: "house (owner_heap m a) \<in> houses m"
         "owner (house_heap m (house (owner_heap m a))) = Some a" by (auto simp: owners_linked_def)
      with o tn False have "house (owner_heap m a) \<noteq> t" "house (owner_heap m a) \<noteq> ?o" by auto
      with False ha show ?thesis by simp
    qed
  qed
  have 7: "houses_linked ?m"
    unfolding houses_linked_def
  proof (intro ballI allI impI)
    fix h a assume h: "h \<in> houses ?m" and own: "owner (house_heap ?m h) = Some a"
    show "a \<in> set (agents ?m) \<and> house (owner_heap ?m a) = h"
    proof (cases "h = t")
      case True
      with own have "a = buyer" by simp
      with True buyer show ?thesis by simp
    next
      case False
      with own have ho: "h \<noteq> ?o" by (auto split: if_splits)
      with False own have "owner (house_heap m h) = Some a" by simp
      with h c(7) have a: "a \<in> set (agents m)" "house (owner_heap m a) = h"
        by (auto simp: houses_linked_def)
      with ho have "a \<noteq> buyer" by auto
      with a show ?thesis by simp
    qed
  qed
  have 8: "labels_ok ?m" using c(8) unfolding labels_ok_def by auto
  from 1 2 3 4 5 6 7 8 show ?thesis by (simp add: wf_model_def asset_inv_def)
qed

subsection \<open>The decision phase\<close>

lemma same_world_refl: "same_world m m"
  by (simp add: same_world_def)

lemma same_world_trans: "same_world m m' \<Longrightarrow> same_world m' m'' \<Longrightarrow> same_world m m''"
  by (simp add: same_world_def)

lemma set_intention_simps [simp]:
  "agents (set_intention m r i t) = agents m"
  "house_heap (set_intention m r i t) = house_heap m"
  "house_map (set_intention m r i t) = house_map m"
  "vacancy_pool (set_intention m r i t) = vacancy_pool m"
  "owner_heap (set_intention m r i t) a =
     (if a = r then (owner_heap m r)\<lparr>intention := i, target_house_id := t\<rparr> else owner_heap m a)"
  by (simp_all add: set_intention_def)

lemma same_world_set_intention: "same_world m (set_intention m r i t)"
  by (simp add: same_world_def)

lemma same_world_houses: "same_world m m' \<Longrightarrow> houses m' = houses m"
  by (simp add: same_world_def houses_def)

lemma same_world_wf:
  assumes "same_world m m'" and "wf_model m"
  shows "wf_model m'"
proof -
  from assms(1) have eq: "agents m' = agents m" "house_heap m' = house_heap m"
    "houses m' = houses m" "vacancy_pool m' = vacancy_pool m" "house_map m' = house_map m"
    "\<And>a. house (owner_heap m' a) = house (owner_heap m a)"
    by (simp_all add: same_world_def houses_def)
  from assms(2) show ?thesis
    unfolding wf_defs eq .
qed

lemma intent_ok_same_world:
  assumes "same_world m m'" and "owner_heap m' a = owner_heap m a" and "intent_ok m a"
  shows "intent_ok m' a"
proof -
  from assms(1) have eq: "house_heap m' = house_heap m" "vacancy_pool m' = vacancy_pool m"
    by (simp_all add: same_world_def)
  from assms(1) assms(2) have "financial_capacity (owner_heap m') a = financial_capacity (owner_heap m) a"
    by (simp add: financial_capacity_def)
  with assms(3) assms(2) eq show ?thesis by (simp add: intent_ok_def)
qed

lemma S_upgrade_eligible:
  assumes "S_upgrade rnd m r > S_current rnd m r" and R: "rounding rnd"
  shows "savings (owner_heap m r) > COST_PER_LABEL_UPGRADE
         \<and> energy_label (house_heap m (house (owner_heap m r))) < 7"
proof (rule ccontr)
  assume "\<not> ?thesis"
  then have "S_upgrade rnd m r = - 999" by (auto simp: S_upgrade_def Let_def)
  with assms(1) S_current_nonneg [OF R, of m r] show False by simp
qed

lemma HomeOwner_step_intent:
  assumes R: "rounding rnd"
  obtains i t where "HomeOwner_step rnd m r = Inr (set_intention m r i t)"
    and "intent_ok (set_intention m r i t) r"
proof (cases "best_buy_score rnd m r > S_upgrade rnd m r \<and> best_buy_score rnd m r > S_current rnd m r")
  case True
  then have "best_buy_score rnd m r > S_current rnd m r" by simp
  from best_buy_target [OF this R] obtain b where
    b: "b \<in> set (affordable_pool m r)" "fst (market_scan rnd m r) = Some b" by blast
  from b(1) have bp: "b \<in> set (vacancy_pool m)"
    "market_value (house_heap m b) \<le> financial_capacity (owner_heap m) r"
    by (simp_all add: affordable_pool_def)
  from True b(2) have
    st: "HomeOwner_step rnd m r = Inr (set_intention m r BUY (Some (unique_id (house_heap m b))))"
    by (simp add: HomeOwner_step_cases [OF R])
  have "intent_ok (set_intention m r BUY (Some (unique_id (house_heap m b)))) r"
    using bp by (auto simp: intent_ok_def financial_capacity_def)
  with st show thesis by (rule that)
next
  case nobuy: False
  show thesis
  proof (cases "S_upgrade rnd m r > S_current rnd m r")
    case True
    with nobuy have st: "HomeOwner_step rnd m r = Inr (set_intention m r UPGRADE None)"
      by (auto simp add: HomeOwner_step_cases [OF R])
    from S_upgrade_eligible [OF True R]
    have "intent_ok (set_intention m r UPGRADE None) r" by (simp add: intent_ok_def)
    with st show thesis by (rule that)
  next
    case False
    with nobuy have st: "HomeOwner_step rnd m r = Inr (set_intention m r STAY None)"
      by (auto simp add: HomeOwner_step_cases [OF R])
    have "intent_ok (set_intention m r STAY None) r" by (simp add: intent_ok_def)
    with st show thesis by (rule that)
  qed
qed

lemma schedule_step_agents_ok:
  assumes "\<forall>a \<in> A. intent_ok m a" and R: "rounding rnd"
  shows "\<exists>m'. schedule_step_agents rnd m as = Inr m' \<and> same_world m m'
            \<and> (\<forall>a \<in> A \<union> set as. intent_ok m' a)
            \<and> (\<forall>a. a \<notin> set as \<longrightarrow> owner_heap m' a = owner_heap m a)"
  using assms(1)
proof (induction as arbitrary: m A)
  case Nil
  then show ?case by (simp add: same_world_refl)
next
  case (Cons r as)
  obtain i t where st: "HomeOwner_step rnd m r = Inr (set_intention m r i t)"
    and ok: "intent_ok (set_intention m r i t) r" by (rule HomeOwner_step_intent [OF R])
  let ?m1 = "set_intention m r i t"
  have sw: "same_world m ?m1" by (rule same_world_set_intention)
  have "\<forall>a \<in> insert r A. intent_ok ?m1 a"
  proof
    fix a assume a: "a \<in> insert r A"
    show "intent_ok ?m1 a"
    proof (cases "a = r")
      case True
      with ok show ?thesis by simp
    next
      case False
      with a Cons.prems have old: "intent_ok m a" by simp
      from False have "owner_heap ?m1 a = owner_heap m a" by simp
      with sw show ?thesis using old by (rule intent_ok_same_world)
    qed
  qed
  from Cons.IH [OF this] obtain m' where
    m': "schedule_step_agents rnd ?m1 as = Inr m'" "same_world ?m1 m'"
        "\<forall>a \<in> insert r A \<union> set as. intent_ok m' a"
        "\<forall>a. a \<notin> set as \<longrightarrow> owner_heap m' a = owner_heap ?m1 a"
    by blast
  from st m'(1) have "schedule_step_agents rnd m (r # as) = Inr m'" by simp
  moreover from sw m'(2) have "same_world m m'" by (rule same_world_trans)
  moreover from m'(3) have "\<forall>a \<in> A \<union> set (r # as). intent_ok m' a" by simp
  moreover from m'(4) have "\<forall>a. a \<notin> set (r # as) \<longrightarrow> owner_heap m' a = owner_heap m a"
    by simp
  ultimately show ?case by blast
qed

lemma schedule_step_ok:
  assumes R: "rounding rnd"
  obtains m' where "schedule_step rnd m = Inr m'" "same_world m m'"
    "\<forall>a \<in> set (agents m'). intent_ok m' a"
proof -
  have "\<forall>a \<in> {}. intent_ok m a" by simp
  from schedule_step_agents_ok [OF this R, of "agents m"] obtain m' where
    m': "schedule_step_agents rnd m (agents m) = Inr m'" "same_world m m'"
        "\<forall>a \<in> {} \<union> set (agents m). intent_ok m' a" by blast
  from m'(2) have "agents m' = agents m" by (simp add: same_world_def)
  with m' show thesis by (intro that [of m']) (simp_all add: schedule_step_def)
qed

subsection \<open>Bids and winners\<close>

lemma add_bid_keys:
  "map fst (add_bid t a bids) = (if t \<in> fst ` set bids then map fst bids else map fst bids @ [t])"
  by (induction bids) (force simp: image_iff)+

lemma add_bid_entries:
  "(k, bs) \<in> set (add_bid t a bids) \<Longrightarrow>
     (k, bs) \<in> set bids \<or> (k = t \<and> (bs = [a] \<or> (\<exists>bs0. (k, bs0) \<in> set bids \<and> bs = bs0 @ [a])))"
  by (induction bids) (auto split: if_splits)

lemma add_bid_nonempty: "(k, bs) \<in> set (add_bid t a bids) \<Longrightarrow> \<forall>(k, bs) \<in> set bids. bs \<noteq> [] \<Longrightarrow> bs \<noteq> []"
  by (induction bids) (auto split: if_splits)

lemma bids_ok_add_bid:
  assumes ok: "bids_ok m bids" and a: "a \<in> set (agents m)"
    and buy: "intention (owner_heap m a) = BUY" and int: "intent_ok m a"
  shows "bids_ok m (add_bid (target_house_id (owner_heap m a)) a bids)"
proof -
  let ?t = "target_house_id (owner_heap m a)"
  from int buy obtain b where b: "b \<in> set (vacancy_pool m)" "?t = Some (unique_id (house_heap m b))"
    by (auto simp: intent_ok_def)
  from ok have d: "distinct (map fst (add_bid ?t a bids))"
    by (auto simp: add_bid_keys bids_ok_def)
  have "bs \<noteq> []
        \<and> (\<forall>x \<in> set bs. x \<in> set (agents m) \<and> intention (owner_heap m x) = BUY
               \<and> target_house_id (owner_heap m x) = k)
        \<and> (\<exists>t \<in> set (vacancy_pool m). k = Some (unique_id (house_heap m t)))"
    if "(k, bs) \<in> set (add_bid ?t a bids)" for k bs
  proof -
    from add_bid_entries [OF that] consider
      (old) "(k, bs) \<in> set bids" | (new) "k = ?t" "bs = [a]"
      | (ext) bs0 where "k = ?t" "(k, bs0) \<in> set bids" "bs = bs0 @ [a]" by blast
    then show ?thesis
    proof cases
      case old
      with ok show ?thesis by (auto simp: bids_ok_def)
    next
      case new
      with a buy b show ?thesis by auto
    next
      case ext
      from ok ext(2) have "bs0 \<noteq> []
        \<and> (\<forall>x \<in> set bs0. x \<in> set (agents m) \<and> intention (owner_heap m x) = BUY
               \<and> target_house_id (owner_heap m x) = k)" by (auto simp: bids_ok_def)
      with ext a buy b show ?thesis by auto
    qed
  qed
  with d show ?thesis by (auto simp: bids_ok_def)
qed

lemma collect_bids_loop_ok:
  assumes "bids_ok m bids" and "set as \<subseteq> set (agents m)" and "\<forall>a \<in> set as. intent_ok m a"
  shows "bids_ok m (collect_bids_loop (owner_heap m) as bids)"
  using assms
proof (induction as arbitrary: bids)
  case Nil
  then show ?case by simp
next
  case (Cons a as)
  show ?case
  proof (cases "intention (owner_heap m a) = BUY")
    case True
    from Cons.prems have "bids_ok m (add_bid (target_house_id (owner_heap m a)) a bids)"
      using True by (intro bids_ok_add_bid) simp_all
    from Cons.IH [OF this] Cons.prems True show ?thesis by simp
  next
    case False
    from Cons.IH [OF Cons.prems(1)] Cons.prems False show ?thesis by simp
  qed
qed

lemma collect_bids_ok:
  assumes "\<forall>a \<in> set (agents m). intent_ok m a"
  shows "bids_ok m (collect_bids m)"
proof -
  have "bids_ok m []" by (simp add: bids_ok_def)
  from collect_bids_loop_ok [OF this _ assms] show ?thesis by (simp add: collect_bids_def)
qed

text \<open>The winner: the first bidder, in bidding order, whose capacity no other exceeds.\<close>

lemma insort_key_cong_set:
  "f x = g x \<Longrightarrow> \<forall>y \<in> set ys. f y = g y \<Longrightarrow> insort_key f x ys = insort_key g x ys"
  by (induction ys) auto

lemma sort_key_cong_set: "\<forall>x \<in> set xs. f x = g x \<Longrightarrow> sort_key f xs = sort_key g xs"
  by (induction xs) (auto intro: insort_key_cong_set)

lemma select_winner_cong:
  assumes "\<forall>x \<in> set bs. financial_capacity oh x = financial_capacity oh' x"
  shows "select_winner oh bs = select_winner oh' bs"
proof -
  from assms have "\<forall>x \<in> set bs. - financial_capacity oh x = - financial_capacity oh' x" by simp
  then have "sort_key (\<lambda>x. - financial_capacity oh x) bs = sort_key (\<lambda>x. - financial_capacity oh' x) bs"
    by (rule sort_key_cong_set)
  then show ?thesis by (simp add: select_winner_def sorted_reverse_def)
qed

lemma select_winner_max:
  assumes "bs \<noteq> []"
  obtains w where "select_winner oh bs = Inr w" "w \<in> set bs"
    "\<forall>b \<in> set bs. financial_capacity oh b \<le> financial_capacity oh w"
proof -
  let ?k = "\<lambda>x. - financial_capacity oh x"
  let ?s = "sort_key ?k bs"
  from assms have "?s \<noteq> []" by (metis set_sort set_empty)
  then obtain w rest where s: "?s = w # rest" by (cases ?s) auto
  have "sorted (map ?k ?s)" by (rule sorted_sort_key)
  with s have le: "\<forall>x \<in> set rest. ?k w \<le> ?k x" by simp
  have mem: "set ?s = set bs" by simp
  with s have w: "w \<in> set bs" by (metis list.set_intros(1))
  have "\<forall>b \<in> set bs. financial_capacity oh b \<le> financial_capacity oh w"
  proof
    fix b assume "b \<in> set bs"
    with mem s have "b = w \<or> b \<in> set rest" by (metis set_ConsD)
    with le show "financial_capacity oh b \<le> financial_capacity oh w" by auto
  qed
  moreover from s have "select_winner oh bs = Inr w" by (simp add: select_winner_def sorted_reverse_def)
  ultimately show thesis using w by (intro that [of w])
qed

subsection \<open>Market clearing\<close>

lemma market_frame_refl: "market_frame m m"
  by (simp add: market_frame_def)

lemma market_frame_trans: "market_frame m m' \<Longrightarrow> market_frame m' m'' \<Longrightarrow> market_frame m m''"
  by (simp add: market_frame_def)

lemma market_frame_move_to:
  "intention (owner_heap m b) = BUY \<Longrightarrow> market_frame m (move_to m b t)"
  by (simp add: market_frame_def)

lemma move_to_pool_set:
  assumes wf: "wf_model m" and buyer: "buyer \<in> set (agents m)"
    and t: "t \<in> set (vacancy_pool m)"
  shows "set (vacancy_pool (move_to m buyer t))
           = (set (vacancy_pool m) \<union> {house (owner_heap m buyer)}) - {t}"
proof -
  let ?o = "house (owner_heap m buyer)"
  note c = wf_modelD [OF wf]
  from c(6) buyer have o: "?o \<in> houses m" "owner (house_heap m ?o) = Some buyer"
    by (auto simp: owners_linked_def)
  with c(1) have "\<not> is_vacant (house_heap m ?o)" by (auto simp: vacant_xor_owned_def)
  with c(2) have o_pool: "?o \<notin> set (vacancy_pool m)" by (auto simp: pool_exact_def)
  have pool: "vacancy_pool (move_to m buyer t) = remove1 t (vacancy_pool m @ [?o])"
    using t by (simp add: move_to_pool)
  have dpo: "distinct (vacancy_pool m @ [?o])" using c(3) o_pool by simp
  show ?thesis unfolding pool using dpo by (simp only: set_remove1_eq) simp
qed

lemma pool_house_registered:
  assumes wf: "wf_model m" and t: "t \<in> set (vacancy_pool m)"
  shows "house_map m (unique_id (house_heap m t)) = Some t"
proof -
  note c = wf_modelD [OF wf]
  from c(2) t have "t \<in> houses m" by (auto simp: pool_exact_def)
  then obtain k where k: "house_map m k = Some t" by (auto simp: houses_def ran_def)
  with c(4) have "unique_id (house_heap m t) = k" by (simp add: ids_ok_def)
  with k show ?thesis by simp
qed

lemma resolve_bids_append:
  "resolve_bids m (pre @ post) =
     (case resolve_bids m pre of Inl e \<Rightarrow> Inl e | Inr m' \<Rightarrow> resolve_bids m' post)"
  by (induction pre arbitrary: m) (auto split: sum.splits)

lemma resolve_step:
  assumes wf: "wf_model m" and ok: "bids_ok m ((k, bs) # rest)"
  obtains w t where "select_winner (owner_heap m) bs = Inr w" "w \<in> set bs"
    "\<forall>b \<in> set bs. financial_capacity (owner_heap m) b \<le> financial_capacity (owner_heap m) w"
    "t \<in> set (vacancy_pool m)" "k = Some (unique_id (house_heap m t))"
    "house_map m (unique_id (house_heap m t)) = Some t"
    "execute_move m w k = Inr (move_to m w t)"
    "wf_model (move_to m w t)" "bids_ok (move_to m w t) rest"
    "market_frame m (move_to m w t)"
proof -
  from ok have ne: "bs \<noteq> []"
    and bs: "\<forall>a \<in> set bs. a \<in> set (agents m) \<and> intention (owner_heap m a) = BUY
               \<and> target_house_id (owner_heap m a) = k"
    and ex: "\<exists>t \<in> set (vacancy_pool m). k = Some (unique_id (house_heap m t))"
    by (auto simp: bids_ok_def)
  from ex obtain t where t: "t \<in> set (vacancy_pool m)" "k = Some (unique_id (house_heap m t))"
    by blast
  from select_winner_max [OF ne, of "owner_heap m"] obtain w where
    w: "select_winner (owner_heap m) bs = Inr w" "w \<in> set bs"
       "\<forall>b \<in> set bs. financial_capacity (owner_heap m) b \<le> financial_capacity (owner_heap m) w"
    by blast
  from w(2) bs have wa: "w \<in> set (agents m)" "intention (owner_heap m w) = BUY" by auto
  have reg: "house_map m (unique_id (house_heap m t)) = Some t"
    using wf t(1) by (rule pool_house_registered)
  with t(2) have mv: "execute_move m w k = Inr (move_to m w t)"
    by (simp add: execute_move_Some)
  have wf': "wf_model (move_to m w t)" using wf wa(1) t(1) by (rule move_to_wf)
  have pool': "set (vacancy_pool (move_to m w t))
           = (set (vacancy_pool m) \<union> {house (owner_heap m w)}) - {t}"
    using wf wa(1) t(1) by (rule move_to_pool_set)
  have ok': "bids_ok (move_to m w t) rest"
    unfolding bids_ok_def
  proof (intro conjI ballI)
    from ok show "distinct (map fst rest)" by (simp add: bids_ok_def)
  next
    fix e assume e: "e \<in> set rest"
    obtain k2 bs2 where e2: "e = (k2, bs2)" by (cases e)
    from ok have "k \<notin> fst ` set rest" by (simp add: bids_ok_def)
    with e e2 have kk: "k2 \<noteq> k" by force
    from ok e e2 have ne2: "bs2 \<noteq> []"
      and bs2: "\<forall>a \<in> set bs2. a \<in> set (agents m) \<and> intention (owner_heap m a) = BUY
               \<and> target_house_id (owner_heap m a) = k2"
      and ex2: "\<exists>t \<in> set (vacancy_pool m). k2 = Some (unique_id (house_heap m t))"
      by (auto simp: bids_ok_def)
    from ex2 obtain t2 where t2: "t2 \<in> set (vacancy_pool m)" "k2 = Some (unique_id (house_heap m t2))"
      by blast
    with kk t(2) have "t2 \<noteq> t" by auto
    with t2(1) pool' have in': "t2 \<in> set (vacancy_pool (move_to m w t))" by simp
    have "unique_id (house_heap (move_to m w t) t2) = unique_id (house_heap m t2)"
      by simp
    with t2(2) have "k2 = Some (unique_id (house_heap (move_to m w t) t2))" by (simp only:)
    with in' have ex': "\<exists>t' \<in> set (vacancy_pool (move_to m w t)).
        k2 = Some (unique_id (house_heap (move_to m w t) t'))" by blast
    from bs2 have bs': "\<forall>a \<in> set bs2. a \<in> set (agents (move_to m w t))
          \<and> intention (owner_heap (move_to m w t) a) = BUY
          \<and> target_house_id (owner_heap (move_to m w t) a) = k2" by simp
    show "case e of (k, bs) \<Rightarrow> bs \<noteq> []
            \<and> (\<forall>a \<in> set bs. a \<in> set (agents (move_to m w t))
                  \<and> intention (owner_heap (move_to m w t) a) = BUY
                  \<and> target_house_id (owner_heap (move_to m w t) a) = k)
            \<and> (\<exists>t' \<in> set (vacancy_pool (move_to m w t)).
                  k = Some (unique_id (house_heap (move_to m w t) t')))"
      unfolding e2 prod.case by (intro conjI ne2 bs' ex')
  qed
  have fr: "market_frame m (move_to m w t)" using wa(2) by (rule market_frame_move_to)
  from w t reg mv wf' ok' fr show thesis by (intro that [of w t])
qed

lemma bids_ok_tail: "bids_ok m (e # rest) \<Longrightarrow> bids_ok m rest"
  by (simp add: bids_ok_def)

lemma resolve_bids_prefix:
  assumes "wf_model m" and "bids_ok m (pre @ post)"
  shows "\<exists>mi. resolve_bids m pre = Inr mi \<and> wf_model mi \<and> bids_ok mi post \<and> market_frame m mi"
  using assms
proof (induction pre arbitrary: m)
  case Nil
  then show ?case by (simp add: market_frame_refl)
next
  case (Cons e pre)
  obtain k bs where e: "e = (k, bs)" by (cases e)
  from Cons.prems(2) e have ok: "bids_ok m ((k, bs) # (pre @ post))" by simp
  show ?case
  proof (rule resolve_step [OF Cons.prems(1) ok])
    fix w t
    assume st: "select_winner (owner_heap m) bs = Inr w"
      "execute_move m w k = Inr (move_to m w t)"
      "wf_model (move_to m w t)" "bids_ok (move_to m w t) (pre @ post)"
      "market_frame m (move_to m w t)"
    from Cons.IH [OF st(3) st(4)] obtain mi where
      mi: "resolve_bids (move_to m w t) pre = Inr mi" "wf_model mi" "bids_ok mi post"
          "market_frame (move_to m w t) mi" by blast
    from st(1,2) mi(1) e have "resolve_bids m (e # pre) = Inr mi" by simp
    moreover from st(5) mi(4) have "market_frame m mi" by (rule market_frame_trans)
    ultimately show ?thesis using mi(2,3) by blast
  qed
qed

lemma resolve_market_conflicts_ok:
  assumes "wf_model m" and "\<forall>a \<in> set (agents m). intent_ok m a"
  obtains m' where "resolve_market_conflicts m = Inr m'" "wf_model m'" "market_frame m m'"
proof -
  from assms(2) have "bids_ok m (collect_bids m @ [])" by (simp add: collect_bids_ok)
  from resolve_bids_prefix [OF assms(1) this] show thesis
    by (auto simp: resolve_market_conflicts_def intro: that)
qed

subsection \<open>Upgrades\<close>

lemma grows_refl: "grows m m"
  by (simp add: grows_def)

lemma grows_trans:
  assumes "grows m m'" and "grows m' m''"
  shows "grows m m''"
  unfolding grows_def
proof (intro conjI allI)
  from assms show "agents m'' = agents m" "house_map m'' = house_map m"
    by (simp_all add: grows_def)
next
  fix h
  from assms have "energy_label (house_heap m h) \<le> energy_label (house_heap m' h)"
    "energy_label (house_heap m' h) \<le> energy_label (house_heap m'' h)"
    by (simp_all add: grows_def)
  then show "energy_label (house_heap m h) \<le> energy_label (house_heap m'' h)" by (rule order_trans)
next
  fix h
  from assms have "market_value (house_heap m h) \<le> market_value (house_heap m' h)"
    "market_value (house_heap m' h) \<le> market_value (house_heap m'' h)"
    by (simp_all add: grows_def)
  then show "market_value (house_heap m h) \<le> market_value (house_heap m'' h)" by (rule order_trans)
qed

lemma same_world_grows: "same_world m m' \<Longrightarrow> grows m m'"
  by (simp add: same_world_def grows_def)

lemma market_frame_grows: "market_frame m m' \<Longrightarrow> grows m m'"
  by (simp add: market_frame_def grows_def)

lemma apply_upgrade_simps:
  "agents (apply_upgrade m a) = agents m"
  "house_map (apply_upgrade m a) = house_map m"
  "houses (apply_upgrade m a) = houses m"
  "vacancy_pool (apply_upgrade m a) = vacancy_pool m"
  "owner (house_heap (apply_upgrade m a) h) = owner (house_heap m h)"
  "is_vacant (house_heap (apply_upgrade m a) h) = is_vacant (house_heap m h)"
  "unique_id (house_heap (apply_upgrade m a) h) = unique_id (house_heap m h)"
  "house (owner_heap (apply_upgrade m a) b) = house (owner_heap m b)"
  "energy_label (house_heap (apply_upgrade m a) h) =
     (if h = house (owner_heap m a) then energy_label (house_heap m h) + 1
      else energy_label (house_heap m h))"
  "market_value (house_heap (apply_upgrade m a) h) =
     (if h = house (owner_heap m a) then market_value (house_heap m h) + 2000
      else market_value (house_heap m h))"
  "intention (owner_heap (apply_upgrade m a) b) =
     (if b = a then STAY else intention (owner_heap m b))"
  "savings (owner_heap (apply_upgrade m a) b) =
     (if b = a then savings (owner_heap m a) - COST_PER_LABEL_UPGRADE else savings (owner_heap m b))"
  by (simp_all add: apply_upgrade_def update_energy_label_def Let_def houses_def)

lemma apply_upgrade_grows: "grows m (apply_upgrade m a)"
  by (simp add: grows_def apply_upgrade_simps)

lemma apply_upgrade_wf:
  assumes wf: "wf_model m" and a: "a \<in> set (agents m)"
    and lab: "energy_label (house_heap m (house (owner_heap m a))) < 7"
  shows "wf_model (apply_upgrade m a)"
proof -
  note c = wf_modelD [OF wf]
  have 1: "vacant_xor_owned (apply_upgrade m a)"
    using c(1) by (simp add: vacant_xor_owned_def apply_upgrade_simps)
  have 2: "pool_exact (apply_upgrade m a)"
    using c(2) by (simp add: pool_exact_def apply_upgrade_simps)
  have 3: "distinct (vacancy_pool (apply_upgrade m a))"
    using c(3) by (simp add: apply_upgrade_simps)
  have 4: "ids_ok (apply_upgrade m a)"
    using c(4) by (simp add: ids_ok_def apply_upgrade_simps)
  have 5: "distinct (agents (apply_upgrade m a))"
    using c(5) by (simp add: apply_upgrade_simps)
  have 6: "owners_linked (apply_upgrade m a)"
    using c(6) by (simp add: owners_linked_def apply_upgrade_simps)
  have 7: "houses_linked (apply_upgrade m a)"
    using c(7) by (simp add: houses_linked_def apply_upgrade_simps)
  have 8: "labels_ok (apply_upgrade m a)"
    unfolding labels_ok_def
  proof
    fix h assume "h \<in> houses (apply_upgrade m a)"
    then have "h \<in> houses m" by (simp add: apply_upgrade_simps)
    with c(8) have "0 \<le> energy_label (house_heap m h)" "energy_label (house_heap m h) \<le> 7"
      by (auto simp: labels_ok_def)
    with lab show "0 \<le> energy_label (house_heap (apply_upgrade m a) h)
        \<and> energy_label (house_heap (apply_upgrade m a) h) \<le> 7"
      by (auto simp: apply_upgrade_simps)
  qed
  from 1 2 3 4 5 6 7 8 show ?thesis by (simp add: wf_model_def asset_inv_def)
qed

lemma apply_upgrade_upgrade_ok:
  assumes wf: "wf_model m" and up: "upgrade_ok m" and a: "a \<in> set (agents m)"
  shows "upgrade_ok (apply_upgrade m a)"
  unfolding upgrade_ok_def
proof (intro ballI impI)
  fix b assume b: "b \<in> set (agents (apply_upgrade m a))"
    and ib: "intention (owner_heap (apply_upgrade m a) b) = UPGRADE"
  note c = wf_modelD [OF wf]
  from ib have ne: "b \<noteq> a" and ib': "intention (owner_heap m b) = UPGRADE"
    by (auto simp: apply_upgrade_simps split: if_splits)
  from b have bm: "b \<in> set (agents m)" by (simp add: apply_upgrade_simps)
  from c(6) a bm have "owner (house_heap m (house (owner_heap m a))) = Some a"
    "owner (house_heap m (house (owner_heap m b))) = Some b"
    by (auto simp: owners_linked_def)
  with ne have "house (owner_heap m b) \<noteq> house (owner_heap m a)" by auto
  moreover from up bm ib' have "energy_label (house_heap m (house (owner_heap m b))) < 7"
    by (simp add: upgrade_ok_def)
  ultimately show "energy_label (house_heap (apply_upgrade m a)
      (house (owner_heap (apply_upgrade m a) b))) < 7"
    by (simp add: apply_upgrade_simps)
qed

lemma handle_upgrades_ok:
  assumes "wf_model m" and "upgrade_ok m" and "set as \<subseteq> set (agents m)"
  shows "wf_model (handle_upgrades m as) \<and> grows m (handle_upgrades m as)"
  using assms
proof (induction as arbitrary: m)
  case Nil
  then show ?case by (simp add: grows_refl)
next
  case (Cons a as)
  from Cons.prems(3) have a: "a \<in> set (agents m)" and as: "set as \<subseteq> set (agents m)" by simp_all
  show ?case
  proof (cases "intention (owner_heap m a) = UPGRADE")
    case True
    with Cons.prems(2) a have "energy_label (house_heap m (house (owner_heap m a))) < 7"
      by (simp add: upgrade_ok_def)
    with Cons.prems(1) a have wf': "wf_model (apply_upgrade m a)" by (rule apply_upgrade_wf)
    have up': "upgrade_ok (apply_upgrade m a)"
      using Cons.prems(1,2) a by (rule apply_upgrade_upgrade_ok)
    from as have "set as \<subseteq> set (agents (apply_upgrade m a))" by (simp add: apply_upgrade_simps)
    from Cons.IH [OF wf' up' this]
    have "wf_model (handle_upgrades (apply_upgrade m a) as)"
      "grows (apply_upgrade m a) (handle_upgrades (apply_upgrade m a) as)" by simp_all
    with apply_upgrade_grows [of m a] True show ?thesis
      by (auto intro: grows_trans)
  next
    case False
    from Cons.IH [OF Cons.prems(1,2) as] False show ?thesis by simp
  qed
qed

subsection \<open>One tick\<close>

lemma market_frame_upgrade_ok:
  assumes fr: "market_frame m1 m2" and int: "\<forall>a \<in> set (agents m1). intent_ok m1 a"
  shows "upgrade_ok m2"
  unfolding upgrade_ok_def
proof (intro ballI impI)
  fix a assume a: "a \<in> set (agents m2)" and up: "intention (owner_heap m2 a) = UPGRADE"
  from fr a have a1: "a \<in> set (agents m1)" by (simp add: market_frame_def)
  from fr up have up1: "intention (owner_heap m1 a) = UPGRADE" by (simp add: market_frame_def)
  with fr have same: "owner_heap m2 a = owner_heap m1 a" by (simp add: market_frame_def)
  from int a1 up1 have "energy_label (house_heap m1 (house (owner_heap m1 a))) < 7"
    by (simp add: intent_ok_def)
  moreover from fr have "energy_label (house_heap m2 (house (owner_heap m1 a)))
      = energy_label (house_heap m1 (house (owner_heap m1 a)))" by (simp add: market_frame_def)
  ultimately show "energy_label (house_heap m2 (house (owner_heap m2 a))) < 7"
    using same by simp
qed

lemma HousingModel_step_ok:
  assumes wf: "wf_model m" and R: "rounding rnd"
  obtains m' where "HousingModel_step rnd m = Inr m'" "wf_model m'" "grows m m'"
proof -
  obtain m1 where m1: "schedule_step rnd m = Inr m1" "same_world m m1"
    "\<forall>a \<in> set (agents m1). intent_ok m1 a" by (rule schedule_step_ok [OF R])
  from m1(2) wf have wf1: "wf_model m1" by (rule same_world_wf)
  obtain m2 where m2: "resolve_market_conflicts m1 = Inr m2" "wf_model m2" "market_frame m1 m2"
    using wf1 m1(3) by (rule resolve_market_conflicts_ok)
  from m2(3) m1(3) have up: "upgrade_ok m2" by (rule market_frame_upgrade_ok)
  from handle_upgrades_ok [OF m2(2) up subset_refl]
  have m3: "wf_model (handle_upgrades m2 (agents m2))" "grows m2 (handle_upgrades m2 (agents m2))"
    by simp_all
  from m1(1) m2(1) have "HousingModel_step rnd m = Inr (handle_upgrades m2 (agents m2))"
    by (simp add: HousingModel_step_def)
  moreover have "grows m (handle_upgrades m2 (agents m2))"
    using same_world_grows [OF m1(2)] market_frame_grows [OF m2(3)] m3(2)
    by (blast intro: grows_trans)
  ultimately show thesis using m3(1) by (intro that)
qed

lemma run_ok:
  assumes wf: "wf_model m" and R: "rounding rnd"
  shows "\<exists>m'. run rnd n m = Inr m' \<and> wf_model m' \<and> grows m m'"
proof (induction n)
  case 0
  from wf show ?case by (simp add: grows_refl)
next
  case (Suc n)
  then obtain m1 where m1: "run rnd n m = Inr m1" "wf_model m1" "grows m m1" by blast
  from m1(2) obtain m2 where m2: "HousingModel_step rnd m1 = Inr m2" "wf_model m2" "grows m1 m2"
    by (rule HousingModel_step_ok [OF _ R])
  from m1(1) m2(1) have "run rnd (Suc n) m = Inr m2" by simp
  moreover from m1(3) m2(3) have "grows m m2" by (rule grows_trans)
  ultimately show ?case using m2(2) by blast
qed

section \<open>Initialisation and the reachable states\<close>

lemma create_houses_result:
  "agents (create_houses i ds m) = agents m
   \<and> owner_heap (create_houses i ds m) = owner_heap m
   \<and> vacancy_pool (create_houses i ds m) = vacancy_pool m
   \<and> (\<forall>k. house_map (create_houses i ds m) k =
          (if i \<le> k \<and> k < i + length ds then Some k else house_map m k))
   \<and> (\<forall>k. house_heap (create_houses i ds m) k =
          (if i \<le> k \<and> k < i + length ds
           then (case ds ! (k - i) of (label, sz, q, price) \<Rightarrow> new_House k label sz q price)
           else house_heap m k))"
proof (induction ds arbitrary: i m)
  case Nil
  show ?case by auto
next
  case (Cons d ds)
  obtain label sz q price where d: "d = (label, sz, q, price)" by (cases d)
  let ?m1 = "m\<lparr>house_heap := (house_heap m)(i := new_House i label sz q price),
          house_map := (house_map m)(i \<mapsto> i)\<rparr>"
  have step: "create_houses i (d # ds) m = create_houses (Suc i) ds ?m1" by (simp add: d)
  note IH = Cons.IH [of "Suc i" ?m1]
  show ?case unfolding step
  proof (intro conjI allI)
    from IH show "agents (create_houses (Suc i) ds ?m1) = agents m"
      "owner_heap (create_houses (Suc i) ds ?m1) = owner_heap m"
      "vacancy_pool (create_houses (Suc i) ds ?m1) = vacancy_pool m" by simp_all
  next
    fix k
    from IH have "house_map (create_houses (Suc i) ds ?m1) k =
          (if Suc i \<le> k \<and> k < Suc i + length ds then Some k else house_map ?m1 k)" by blast
    then show "house_map (create_houses (Suc i) ds ?m1) k =
          (if i \<le> k \<and> k < i + length (d # ds) then Some k else house_map m k)"
      by auto
  next
    fix k
    from IH have "house_heap (create_houses (Suc i) ds ?m1) k =
          (if Suc i \<le> k \<and> k < Suc i + length ds
           then (case ds ! (k - Suc i) of (label, sz, q, price) \<Rightarrow> new_House k label sz q price)
           else house_heap ?m1 k)" by blast
    then show "house_heap (create_houses (Suc i) ds ?m1) k =
          (if i \<le> k \<and> k < i + length (d # ds)
           then (case (d # ds) ! (k - i) of (label, sz, q, price) \<Rightarrow> new_House k label sz q price)
           else house_heap m k)"
      by (cases "k = i") (auto simp: d Suc_diff_Suc)
  qed
qed

lemma create_owners_error:
  "i \<le> n \<Longrightarrow> n < i + length ds \<Longrightarrow> create_owners i n ds m = Inl IndexError"
  by (induction ds arbitrary: i m) auto

lemma create_owners_result:
  assumes "i + length ds \<le> n"
  shows "\<exists>m'. create_owners i n ds m = Inr m'
    \<and> agents m' = agents m @ [i ..< i + length ds]
    \<and> house_map m' = house_map m \<and> vacancy_pool m' = vacancy_pool m
    \<and> (\<forall>k. owner_heap m' k =
          (if i \<le> k \<and> k < i + length ds
           then (case ds ! (k - i) of (inc, sav) \<Rightarrow> new_HomeOwner inc sav k)
           else owner_heap m k))
    \<and> (\<forall>k. house_heap m' k =
          (if i \<le> k \<and> k < i + length ds then (house_heap m k)\<lparr>owner := Some k\<rparr>
           else house_heap m k))"
  using assms
proof (induction ds arbitrary: i m)
  case Nil
  show ?case by auto
next
  case (Cons d ds)
  obtain inc sav where d: "d = (inc, sav)" by (cases d)
  let ?m1 = "m\<lparr>owner_heap := (owner_heap m)(i := new_HomeOwner inc sav i),
             house_heap := (house_heap m)(i := (house_heap m i)\<lparr>owner := Some i\<rparr>),
             agents := agents m @ [i]\<rparr>"
  from Cons.prems have lt: "i < n" and le: "Suc i + length ds \<le> n" by simp_all
  from lt have step: "create_owners i n (d # ds) m = create_owners (Suc i) n ds ?m1"
    by (simp add: d)
  from Cons.IH [OF le, of ?m1] obtain m' where
    m': "create_owners (Suc i) n ds ?m1 = Inr m'"
        "agents m' = agents ?m1 @ [Suc i ..< Suc i + length ds]"
        "house_map m' = house_map ?m1" "vacancy_pool m' = vacancy_pool ?m1"
        "\<forall>k. owner_heap m' k =
          (if Suc i \<le> k \<and> k < Suc i + length ds
           then (case ds ! (k - Suc i) of (inc, sav) \<Rightarrow> new_HomeOwner inc sav k)
           else owner_heap ?m1 k)"
        "\<forall>k. house_heap m' k =
          (if Suc i \<le> k \<and> k < Suc i + length ds then (house_heap ?m1 k)\<lparr>owner := Some k\<rparr>
           else house_heap ?m1 k)" by blast
  have a: "agents m' = agents m @ [i ..< i + length (d # ds)]"
    using m'(2) by (simp add: upt_conv_Cons del: upt_Suc)
  have o: "\<forall>k. owner_heap m' k =
          (if i \<le> k \<and> k < i + length (d # ds)
           then (case (d # ds) ! (k - i) of (inc, sav) \<Rightarrow> new_HomeOwner inc sav k)
           else owner_heap m k)"
  proof
    fix k show "owner_heap m' k =
          (if i \<le> k \<and> k < i + length (d # ds)
           then (case (d # ds) ! (k - i) of (inc, sav) \<Rightarrow> new_HomeOwner inc sav k)
           else owner_heap m k)"
      using m'(5) by (cases "k = i") (auto simp: d Suc_diff_Suc)
  qed
  have h: "\<forall>k. house_heap m' k =
          (if i \<le> k \<and> k < i + length (d # ds) then (house_heap m k)\<lparr>owner := Some k\<rparr>
           else house_heap m k)"
  proof
    fix k show "house_heap m' k =
          (if i \<le> k \<and> k < i + length (d # ds) then (house_heap m k)\<lparr>owner := Some k\<rparr>
           else house_heap m k)"
      using m'(6) by (cases "k = i") auto
  qed
  from step m'(1,3,4) a o h show ?case by simp
qed

lemma handle_remaining_result:
  "agents (handle_remaining is m) = agents m
   \<and> owner_heap (handle_remaining is m) = owner_heap m
   \<and> house_map (handle_remaining is m) = house_map m
   \<and> vacancy_pool (handle_remaining is m) = vacancy_pool m @ is
   \<and> (\<forall>k. house_heap (handle_remaining is m) k =
          (if k \<in> set is then (house_heap m k)\<lparr>is_vacant := True\<rparr> else house_heap m k))"
proof (induction "is" arbitrary: m)
  case Nil
  show ?case by simp
next
  case (Cons i "is")
  let ?m1 = "m\<lparr>house_heap := (house_heap m)(i := (house_heap m i)\<lparr>is_vacant := True\<rparr>),
          vacancy_pool := vacancy_pool m @ [i]\<rparr>"
  note IH = Cons.IH [of ?m1]
  have step: "handle_remaining (i # is) m = handle_remaining is ?m1" by simp
  show ?case unfolding step
  proof (intro conjI allI)
    from IH show "agents (handle_remaining is ?m1) = agents m"
      "owner_heap (handle_remaining is ?m1) = owner_heap m"
      "house_map (handle_remaining is ?m1) = house_map m"
      "vacancy_pool (handle_remaining is ?m1) = vacancy_pool m @ i # is" by simp_all
  next
    fix k
    from IH have "house_heap (handle_remaining is ?m1) k =
          (if k \<in> set is then (house_heap ?m1 k)\<lparr>is_vacant := True\<rparr> else house_heap ?m1 k)"
      by blast
    then show "house_heap (handle_remaining is ?m1) k =
          (if k \<in> set (i # is) then (house_heap m k)\<lparr>is_vacant := True\<rparr> else house_heap m k)"
      by auto
  qed
qed

lemma init_model_error:
  "length hs < length os \<Longrightarrow> init_model hs os = Inl IndexError"
  by (simp add: init_model_def create_owners_error)

lemma init_model_result:
  assumes "length os \<le> length hs"
  shows "\<exists>m. init_model hs os = Inr m
    \<and> agents m = [0 ..< length os] \<and> vacancy_pool m = [length os ..< length hs]
    \<and> (\<forall>k. house_map m k = (if k < length hs then Some k else None))
    \<and> (\<forall>k < length hs.
          unique_id (house_heap m k) = k
          \<and> energy_label (house_heap m k) = fst (hs ! k)
          \<and> quality (house_heap m k) = fst (snd (snd (hs ! k)))
          \<and> market_value (house_heap m k) = snd (snd (snd (hs ! k)))
          \<and> owner (house_heap m k) = (if k < length os then Some k else None)
          \<and> is_vacant (house_heap m k) = (length os \<le> k))
    \<and> (\<forall>k < length os.
          house (owner_heap m k) = k
          \<and> income (owner_heap m k) = fst (os ! k)
          \<and> savings (owner_heap m k) = snd (os ! k)
          \<and> intention (owner_heap m k) = STAY
          \<and> target_house_id (owner_heap m k) = None)"
proof -
  let ?m1 = "create_houses 0 hs empty_model"
  note h = create_houses_result [of 0 hs empty_model]
  from assms have "0 + length os \<le> length hs" by simp
  from create_owners_result [OF this, of ?m1] obtain m2 where
    m2: "create_owners 0 (length hs) os ?m1 = Inr m2"
        "agents m2 = agents ?m1 @ [0 ..< 0 + length os]"
        "house_map m2 = house_map ?m1" "vacancy_pool m2 = vacancy_pool ?m1"
        "\<forall>k. owner_heap m2 k =
          (if 0 \<le> k \<and> k < 0 + length os
           then (case os ! (k - 0) of (inc, sav) \<Rightarrow> new_HomeOwner inc sav k)
           else owner_heap ?m1 k)"
        "\<forall>k. house_heap m2 k =
          (if 0 \<le> k \<and> k < 0 + length os then (house_heap ?m1 k)\<lparr>owner := Some k\<rparr>
           else house_heap ?m1 k)" by blast
  let ?m3 = "handle_remaining [length os ..< length hs] m2"
  note r = handle_remaining_result [of "[length os ..< length hs]" m2]
  have init: "init_model hs os = Inr ?m3" using m2(1) by (simp add: init_model_def)
  have a: "agents ?m3 = [0 ..< length os]"
    using r m2(2) h by (simp add: empty_model_def)
  have p: "vacancy_pool ?m3 = [length os ..< length hs]"
    using r m2(4) h by (simp add: empty_model_def)
  have hm: "\<forall>k. house_map ?m3 k = (if k < length hs then Some k else None)"
    using r m2(3) h by (simp add: empty_model_def)
  have hh: "unique_id (house_heap ?m3 k) = k
          \<and> energy_label (house_heap ?m3 k) = fst (hs ! k)
          \<and> quality (house_heap ?m3 k) = fst (snd (snd (hs ! k)))
          \<and> market_value (house_heap ?m3 k) = snd (snd (snd (hs ! k)))
          \<and> owner (house_heap ?m3 k) = (if k < length os then Some k else None)
          \<and> is_vacant (house_heap ?m3 k) = (length os \<le> k)" if "k < length hs" for k
  proof -
    obtain label sz q price where d: "hs ! k = (label, sz, q, price)" by (cases "hs ! k")
    from h that d have 1: "house_heap ?m1 k = new_House k label sz q price" by simp
    from m2(6) have 2: "house_heap m2 k =
       (if k < length os then (house_heap ?m1 k)\<lparr>owner := Some k\<rparr> else house_heap ?m1 k)"
      by simp
    from r that have 3: "house_heap ?m3 k =
       (if length os \<le> k then (house_heap m2 k)\<lparr>is_vacant := True\<rparr> else house_heap m2 k)"
      by simp
    show ?thesis unfolding 3 2 1 by (simp add: new_House_def d)
  qed
  have oh: "house (owner_heap ?m3 k) = k
          \<and> income (owner_heap ?m3 k) = fst (os ! k)
          \<and> savings (owner_heap ?m3 k) = snd (os ! k)
          \<and> intention (owner_heap ?m3 k) = STAY
          \<and> target_house_id (owner_heap ?m3 k) = None" if "k < length os" for k
  proof -
    obtain inc sav where d: "os ! k = (inc, sav)" by (cases "os ! k")
    from r have "owner_heap ?m3 k = owner_heap m2 k" by simp
    also from m2(5) that d have "\<dots> = new_HomeOwner inc sav k" by simp
    finally show ?thesis by (simp add: new_HomeOwner_def d)
  qed
  from init a p hm hh oh show ?thesis by blast
qed

lemma init_model_wf:
  assumes init: "init_model hs os = Inr m"
    and labels: "\<forall>d \<in> set hs. 0 \<le> fst d \<and> fst d \<le> 7"
  shows "wf_model m"
proof -
  have le: "length os \<le> length hs"
  proof (rule ccontr)
    assume "\<not> length os \<le> length hs"
    then have "init_model hs os = Inl IndexError" by (simp add: init_model_error)
    with init show False by simp
  qed
  from init_model_result [OF le] init have
    a: "agents m = [0 ..< length os]" and p: "vacancy_pool m = [length os ..< length hs]"
    and hm: "\<forall>k. house_map m k = (if k < length hs then Some k else None)"
    and hh: "\<forall>k < length hs.
          unique_id (house_heap m k) = k
          \<and> energy_label (house_heap m k) = fst (hs ! k)
          \<and> owner (house_heap m k) = (if k < length os then Some k else None)
          \<and> is_vacant (house_heap m k) = (length os \<le> k)"
    and oh: "\<forall>k < length os. house (owner_heap m k) = k"
    by auto
  have hs: "houses m = {k. k < length hs}"
    using hm by (auto simp: houses_def ran_def)
  have 1: "vacant_xor_owned m"
    unfolding vacant_xor_owned_def hs using hh by auto
  have 2: "pool_exact m"
    unfolding pool_exact_def hs p using hh by auto
  have 3: "distinct (vacancy_pool m)" unfolding p by simp
  have 4: "ids_ok m"
    unfolding ids_ok_def using hm hh by (auto split: if_splits)
  have 5: "distinct (agents m)" unfolding a by simp
  have 6: "owners_linked m"
    unfolding owners_linked_def hs a using oh hh le by auto
  have 7: "houses_linked m"
    unfolding houses_linked_def hs a using oh hh by (auto split: if_splits)
  have 8: "labels_ok m"
    unfolding labels_ok_def hs using hh labels by (auto simp: all_set_conv_all_nth)
  from 1 2 3 4 5 6 7 8 show ?thesis by (simp add: wf_model_def asset_inv_def)
qed

lemma valid_draws_labels:
  assumes "valid_draws hs os"
  shows "\<forall>d \<in> set hs. 0 \<le> fst d \<and> fst d \<le> 7"
proof
  fix d assume "d \<in> set hs"
  with assms have "valid_house_draw d" by (simp add: valid_draws_def list_all_iff)
  then show "0 \<le> fst d \<and> fst d \<le> 7" by (cases d) (simp add: valid_house_draw_def)
qed

lemma reachable_wf:
  assumes "reachable rnd m" and R: "rounding rnd"
  shows "wf_model m"
  using assms(1)
proof (induction rule: reachable.induct)
  case (init hs os m)
  from init(2) valid_draws_labels [OF init(1)] show ?case by (rule init_model_wf)
next
  case (tick m m')
  from tick.IH obtain m'' where "HousingModel_step rnd m = Inr m''" "wf_model m''"
    by (rule HousingModel_step_ok [OF _ R])
  with tick.hyps(2) show ?case by simp
qed

lemma wf_asset_inv: "wf_model m \<Longrightarrow> asset_inv m"
  by (simp add: wf_model_def)

text \<open>
  C1: in every reachable state each house is vacant exactly when it has no owner, and the
  vacancy pool holds exactly the houses whose vacancy flag is set, each once. The next tick returns,
  and the same holds after the decisions of that tick and any number of its moves (the
  bids resolved so far being a prefix of the collected bids), hence after each move.
\<close>

theorem vacancy_invariant:
  assumes "reachable rnd m" and R: "rounding rnd"
  shows "(\<forall>h \<in> houses m. is_vacant (house_heap m h) \<longleftrightarrow> owner (house_heap m h) = None)
     \<and> set (vacancy_pool m) = {h \<in> houses m. is_vacant (house_heap m h)}
     \<and> distinct (vacancy_pool m)
     \<and> (\<exists>m'. HousingModel_step rnd m = Inr m' \<and> asset_inv m')
     \<and> (\<forall>m1 pre post. schedule_step rnd m = Inr m1 \<longrightarrow> collect_bids m1 = pre @ post \<longrightarrow>
           (\<exists>mi. resolve_bids m1 pre = Inr mi \<and> asset_inv mi))"
proof -
  from assms(1) have wf: "wf_model m" by (rule reachable_wf [OF _ R])
  then have inv: "asset_inv m" by (rule wf_asset_inv)
  from wf obtain m' where m': "HousingModel_step rnd m = Inr m'" "wf_model m'"
    by (rule HousingModel_step_ok [OF _ R])
  have mid: "\<exists>mi. resolve_bids m1 pre = Inr mi \<and> asset_inv mi"
    if st: "schedule_step rnd m = Inr m1" and cb: "collect_bids m1 = pre @ post" for m1 pre post
  proof -
    obtain m1' where m1': "schedule_step rnd m = Inr m1'" "same_world m m1'"
      "\<forall>a \<in> set (agents m1'). intent_ok m1' a" by (rule schedule_step_ok [OF R])
    with st have m1: "same_world m m1" "\<forall>a \<in> set (agents m1). intent_ok m1 a" by simp_all
    from m1(1) wf have wf1: "wf_model m1" by (rule same_world_wf)
    from m1(2) have "bids_ok m1 (collect_bids m1)" by (rule collect_bids_ok)
    with cb have "bids_ok m1 (pre @ post)" by simp
    from resolve_bids_prefix [OF wf1 this] show ?thesis by (blast intro: wf_asset_inv)
  qed
  from inv have a: "\<forall>h \<in> houses m. is_vacant (house_heap m h) \<longleftrightarrow> owner (house_heap m h) = None"
    and b: "set (vacancy_pool m) = {h \<in> houses m. is_vacant (house_heap m h)}"
    by (simp_all add: asset_inv_def vacant_xor_owned_def pool_exact_def)
  from m' have c: "\<exists>m'. HousingModel_step rnd m = Inr m' \<and> asset_inv m'"
    by (blast intro: wf_asset_inv)
  from mid have d: "\<forall>m1 pre post. schedule_step rnd m = Inr m1 \<longrightarrow> collect_bids m1 = pre @ post \<longrightarrow>
           (\<exists>mi. resolve_bids m1 pre = Inr mi \<and> asset_inv mi)" by blast
  from wf have e: "distinct (vacancy_pool m)" by (simp add: wf_model_def)
  from a b e c d show ?thesis by (intro conjI)
qed

lemma run_add:
  "run rnd (j + k) m = (case run rnd j m of Inl e \<Rightarrow> Inl e | Inr m' \<Rightarrow> run rnd k m')"
  by (induction k) (auto split: sum.splits)

text \<open>
  C7: from an initial state with draws inside the initialiser's ranges (labels 0 to 5),
  any number of ticks returns a state in which every house has a label from 0 to 7, and
  the label and the market value of every house are at least what they were after any
  smaller number of ticks. The upgrade of a house itself adds one to the label whatever
  the label is.
\<close>

theorem energy_label_bounded_monotone:
  assumes "valid_draws hs os" and "init_model hs os = Inr m0" and R: "rounding rnd"
  shows "\<exists>m. run rnd n m0 = Inr m \<and> houses m = houses m0
     \<and> (\<forall>h \<in> houses m. 0 \<le> energy_label (house_heap m h) \<and> energy_label (house_heap m h) \<le> 7)
     \<and> (\<forall>j \<le> n. \<exists>mj. run rnd j m0 = Inr mj
           \<and> (\<forall>h. energy_label (house_heap mj h) \<le> energy_label (house_heap m h)
                  \<and> market_value (house_heap mj h) \<le> market_value (house_heap m h)))
     \<and> (\<forall>x. energy_label (update_energy_label x 1) = energy_label x + 1)"
proof -
  from assms(2) valid_draws_labels [OF assms(1)] have wf0: "wf_model m0" by (rule init_model_wf)
  from run_ok [OF wf0 R, of n] obtain m where
    m: "run rnd n m0 = Inr m" "wf_model m" "grows m0 m" by blast
  from m(3) have hs: "houses m = houses m0" by (simp add: grows_def houses_def)
  from m(2) have lab: "\<forall>h \<in> houses m. 0 \<le> energy_label (house_heap m h) \<and> energy_label (house_heap m h) \<le> 7"
    by (simp add: wf_model_def labels_ok_def)
  have mono: "\<exists>mj. run rnd j m0 = Inr mj
           \<and> (\<forall>h. energy_label (house_heap mj h) \<le> energy_label (house_heap m h)
                  \<and> market_value (house_heap mj h) \<le> market_value (house_heap m h))"
    if "j \<le> n" for j
  proof -
    from run_ok [OF wf0 R, of j] obtain mj where mj: "run rnd j m0 = Inr mj" "wf_model mj" by blast
    from run_ok [OF mj(2) R, of "n - j"] obtain m' where
      m': "run rnd (n - j) mj = Inr m'" "grows mj m'" by blast
    from that have "run rnd n m0 = run rnd (j + (n - j)) m0" by simp
    also have "\<dots> = run rnd (n - j) mj" using mj(1) by (simp only: run_add) simp
    finally have "m' = m" using m(1) m'(1) by simp
    with m'(2) mj(1) show ?thesis by (auto simp: grows_def)
  qed
  have noclamp: "\<forall>x. energy_label (update_energy_label x 1) = energy_label x + 1"
    by (simp add: update_energy_label_def)
  from m(1) hs lab mono noclamp show ?thesis by blast
qed

text \<open>
  C10: after the decisions of a tick in a reachable state, every \<open>BUY\<close> intention names
  a house that was in the vacancy pool when the decision was taken: it is registered in
  \<^verbatim>\<open>house_map\<close> under the target identifier, it has no owner, and it is the
  house of no agent. The market clearing then returns: no lookup of a move fails.
\<close>

theorem buy_targets_vacant:
  assumes "reachable rnd m" and "schedule_step rnd m = Inr m1" and R: "rounding rnd"
  shows "(\<forall>a \<in> set (agents m1). intention (owner_heap m1 a) = BUY \<longrightarrow>
            (\<exists>t \<in> set (vacancy_pool m).
               target_house_id (owner_heap m1 a) = Some (unique_id (house_heap m t))
               \<and> house_map m (unique_id (house_heap m t)) = Some t
               \<and> owner (house_heap m t) = None
               \<and> (\<forall>b \<in> set (agents m). house (owner_heap m b) \<noteq> t
                                        \<and> house (owner_heap m1 b) \<noteq> t)))
       \<and> (\<exists>m2. resolve_market_conflicts m1 = Inr m2)"
proof -
  from assms(1) have wf: "wf_model m" by (rule reachable_wf [OF _ R])
  note c = wf_modelD [OF wf]
  obtain m1' where m1': "schedule_step rnd m = Inr m1'" "same_world m m1'"
    "\<forall>a \<in> set (agents m1'). intent_ok m1' a" by (rule schedule_step_ok [OF R])
  with assms(2) have m1: "same_world m m1" "\<forall>a \<in> set (agents m1). intent_ok m1 a" by simp_all
  from m1(1) have eq: "vacancy_pool m1 = vacancy_pool m" "house_heap m1 = house_heap m"
    "\<And>b. house (owner_heap m1 b) = house (owner_heap m b)"
    by (simp_all add: same_world_def)
  from m1(1) wf have wf1: "wf_model m1" by (rule same_world_wf)
  have tgt: "\<exists>t \<in> set (vacancy_pool m).
               target_house_id (owner_heap m1 a) = Some (unique_id (house_heap m t))
               \<and> house_map m (unique_id (house_heap m t)) = Some t
               \<and> owner (house_heap m t) = None
               \<and> (\<forall>b \<in> set (agents m). house (owner_heap m b) \<noteq> t
                                        \<and> house (owner_heap m1 b) \<noteq> t)"
    if a: "a \<in> set (agents m1)" and buy: "intention (owner_heap m1 a) = BUY" for a
  proof -
    from m1(2) a buy obtain t where t: "t \<in> set (vacancy_pool m)"
      "target_house_id (owner_heap m1 a) = Some (unique_id (house_heap m t))"
      by (auto simp: intent_ok_def eq)
    from wf t(1) have reg: "house_map m (unique_id (house_heap m t)) = Some t"
      by (rule pool_house_registered)
    from c(2) t(1) have "t \<in> houses m" "is_vacant (house_heap m t)" by (auto simp: pool_exact_def)
    with c(1) have none: "owner (house_heap m t) = None" by (auto simp: vacant_xor_owned_def)
    have "\<forall>b \<in> set (agents m). house (owner_heap m b) \<noteq> t \<and> house (owner_heap m1 b) \<noteq> t"
    proof
      fix b assume "b \<in> set (agents m)"
      with c(6) have "owner (house_heap m (house (owner_heap m b))) = Some b"
        by (simp add: owners_linked_def)
      with none show "house (owner_heap m b) \<noteq> t \<and> house (owner_heap m1 b) \<noteq> t"
        by (auto simp: eq)
    qed
    with t reg none show ?thesis by blast
  qed
  obtain m2 where "resolve_market_conflicts m1 = Inr m2"
    using wf1 m1(2) by (rule resolve_market_conflicts_ok)
  with tgt show ?thesis by blast
qed

section \<open>The resolver\<close>

subsection \<open>Winners first, moves afterwards\<close>

lemma bids_keyed_add_bid:
  assumes "bids_keyed tgt bids"
  shows "bids_keyed tgt (add_bid (tgt a) a bids)"
proof -
  from assms have d: "distinct (map fst (add_bid (tgt a) a bids))"
    by (auto simp: add_bid_keys bids_keyed_def)
  have "bs \<noteq> [] \<and> (\<forall>x \<in> set bs. tgt x = k)" if "(k, bs) \<in> set (add_bid (tgt a) a bids)" for k bs
  proof -
    from add_bid_entries [OF that] consider
      (old) "(k, bs) \<in> set bids" | (new) "k = tgt a" "bs = [a]"
      | (ext) bs0 where "k = tgt a" "(k, bs0) \<in> set bids" "bs = bs0 @ [a]" by blast
    then show ?thesis
    proof cases
      case old
      with assms show ?thesis by (auto simp: bids_keyed_def)
    next
      case new
      then show ?thesis by simp
    next
      case ext
      from assms ext(2) have "\<forall>x \<in> set bs0. tgt x = k" by (auto simp: bids_keyed_def)
      with ext show ?thesis by auto
    qed
  qed
  with d show ?thesis by (auto simp: bids_keyed_def)
qed

lemma bids_keyed_loop:
  "bids_keyed (\<lambda>a. target_house_id (oh a)) bids \<Longrightarrow>
   bids_keyed (\<lambda>a. target_house_id (oh a)) (collect_bids_loop oh as bids)"
proof (induction as arbitrary: bids)
  case Nil
  then show ?case by simp
next
  case (Cons a as)
  from Cons.prems
  have "bids_keyed (\<lambda>a. target_house_id (oh a)) (add_bid (target_house_id (oh a)) a bids)"
    by (rule bids_keyed_add_bid)
  with Cons show ?case by simp
qed

lemma bids_keyed_collect: "bids_keyed (\<lambda>a. target_house_id (owner_heap m a)) (collect_bids m)"
  unfolding collect_bids_def by (rule bids_keyed_loop) (simp add: bids_keyed_def)

lemma select_winners_total:
  "\<forall>(k, bs) \<in> set bids. bs \<noteq> [] \<Longrightarrow> \<exists>ws. select_winners oh bids = Inr ws"
proof (induction bids)
  case Nil
  show ?case by simp
next
  case (Cons e bids)
  obtain k bs where e: "e = (k, bs)" by (cases e)
  with Cons.prems have "bs \<noteq> []" by simp
  then obtain w where "select_winner oh bs = Inr w" by (rule select_winner_max)
  moreover from Cons obtain ws where "select_winners oh bids = Inr ws" by auto
  ultimately show ?case by (simp add: e)
qed

lemma execute_move_other_owner:
  "execute_move m w k = Inr m' \<Longrightarrow> a \<noteq> w \<Longrightarrow> owner_heap m' a = owner_heap m a"
  by (auto simp: execute_move_cases split: option.splits)

lemma resolve_bids_reference:
  assumes "bids_keyed tgt bids"
    and "\<forall>(k, bs) \<in> set bids. \<forall>a \<in> set bs.
           financial_capacity (owner_heap m) a = financial_capacity oh0 a"
  shows "resolve_bids m bids =
     (case select_winners oh0 bids of Inl e \<Rightarrow> Inl e | Inr ws \<Rightarrow> execute_moves m ws)"
  using assms
proof (induction bids arbitrary: m)
  case Nil
  show ?case by simp
next
  case (Cons e rest)
  obtain k bs where e: "e = (k, bs)" by (cases e)
  from Cons.prems(1) e have ne: "bs \<noteq> []" and key: "\<forall>a \<in> set bs. tgt a = k"
    and notin: "k \<notin> fst ` set rest" and rest: "bids_keyed tgt rest"
    by (auto simp: bids_keyed_def)
  from Cons.prems(2) e have "\<forall>a \<in> set bs. financial_capacity (owner_heap m) a = financial_capacity oh0 a"
    by simp
  then have sw: "select_winner (owner_heap m) bs = select_winner oh0 bs" by (rule select_winner_cong)
  from ne obtain w where w: "select_winner oh0 bs = Inr w" "w \<in> set bs"
    by (rule select_winner_max)
  from rest have "\<forall>(k, bs) \<in> set rest. bs \<noteq> []" by (auto simp: bids_keyed_def)
  then obtain ws where ws: "select_winners oh0 rest = Inr ws"
    using select_winners_total by blast
  show ?case
  proof (cases "execute_move m w k")
    case (Inl err)
    with sw w ws e show ?thesis by simp
  next
    case (Inr m')
    have "\<forall>(k2, bs2) \<in> set rest. \<forall>a \<in> set bs2.
           financial_capacity (owner_heap m') a = financial_capacity oh0 a"
    proof (intro ballI, clarify)
      fix k2 bs2 a assume in_rest: "(k2, bs2) \<in> set rest" and a: "a \<in> set bs2"
      from rest in_rest a have "tgt a = k2" by (auto simp: bids_keyed_def)
      moreover from in_rest notin have "k2 \<noteq> k" by force
      moreover from key w(2) have "tgt w = k" by simp
      ultimately have "a \<noteq> w" by auto
      with Inr have "owner_heap m' a = owner_heap m a" by (rule execute_move_other_owner)
      then have "financial_capacity (owner_heap m') a = financial_capacity (owner_heap m) a"
        by (simp add: financial_capacity_def)
      also from Cons.prems(2) in_rest a have "\<dots> = financial_capacity oh0 a" by auto
      finally show "financial_capacity (owner_heap m') a = financial_capacity oh0 a" .
    qed
    from Cons.IH [OF rest this] Inr sw w ws e show ?thesis by simp
  qed
qed

text \<open>
  C5: the market clearing of the code, which picks the winner of a contested house and
  moves that winner at once, house after house, gives the same result (the same final
  state, or the same error) as the resolver that first picks every winner on the state
  the bids were collected in and then executes the moves.
\<close>

theorem market_clearing_refines_reference:
  "resolve_market_conflicts m = reference_resolver m"
  unfolding resolve_market_conflicts_def reference_resolver_def
  by (rule resolve_bids_reference [OF bids_keyed_collect]) simp

subsection \<open>The contested houses\<close>

lemma add_bid_key_set: "fst ` set (add_bid t a bids) = insert t (fst ` set bids)"
proof -
  have "set (map fst (add_bid t a bids)) = insert t (set (map fst bids))"
    unfolding add_bid_keys by auto
  then show ?thesis by simp
qed

lemma bids_grouped_add_bid:
  assumes g: "bids_grouped oh pre bids" and buy: "intention (oh a) = BUY"
  shows "bids_grouped oh (pre @ [a]) (add_bid (target_house_id (oh a)) a bids)"
proof -
  let ?t = "target_house_id (oh a)"
  let ?P = "\<lambda>k x. intention (oh x) = BUY \<and> target_house_id (oh x) = k"
  from g have d: "distinct (map fst bids)"
    and ent: "\<And>k bs. (k, bs) \<in> set bids \<Longrightarrow> bs \<noteq> [] \<and> bs = filter (?P k) pre"
    and cov: "\<And>x. x \<in> set pre \<Longrightarrow> intention (oh x) = BUY \<Longrightarrow> target_house_id (oh x) \<in> fst ` set bids"
    by (auto simp: bids_grouped_def)
  from d have 1: "distinct (map fst (add_bid ?t a bids))" by (auto simp: add_bid_keys)
  have 2: "bs \<noteq> [] \<and> bs = filter (?P k) (pre @ [a])"
    if "(k, bs) \<in> set (add_bid ?t a bids)" for k bs
  proof -
    from add_bid_entries [OF that] consider
      (old) "(k, bs) \<in> set bids" "k \<noteq> ?t" | (same) "(k, bs) \<in> set bids" "k = ?t"
      | (new) "k = ?t" "bs = [a]"
      | (ext) bs0 where "k = ?t" "(k, bs0) \<in> set bids" "bs = bs0 @ [a]" by blast
    then show ?thesis
    proof cases
      case old
      with ent [OF old(1)] show ?thesis by auto
    next
      case same
      from same have "?t \<in> fst ` set bids" by force
      then have keys: "map fst (add_bid ?t a bids) = map fst bids" by (simp add: add_bid_keys)
      from ent [OF same(1)] have bs: "bs = filter (?P k) pre" by simp
      have "(k, bs @ [a]) \<in> set (add_bid ?t a bids)"
        using same(1,2) d by (induction bids) (auto simp: image_iff)
      with that 1 have "bs = bs @ [a]" by (metis eq_key_imp_eq_value)
      then show ?thesis by simp
    next
      case new
      have "filter (?P k) pre = []"
      proof (rule ccontr)
        assume "filter (?P k) pre \<noteq> []"
        then obtain x where x: "x \<in> set pre" "?P k x" by (auto simp: filter_empty_conv)
        from x(2) have xi: "intention (oh x) = BUY" and xt: "target_house_id (oh x) = k"
          by simp_all
        from cov [OF x(1) xi] xt have "k \<in> fst ` set bids" by simp
        then obtain bs0 where in0: "(k, bs0) \<in> set bids" by auto
        then have "(k, bs0 @ [a]) \<in> set (add_bid ?t a bids)"
          using new(1) d by (induction bids) (auto simp: image_iff)
        with that 1 have "bs = bs0 @ [a]" by (metis eq_key_imp_eq_value)
        with new(2) ent [OF in0] show False by simp
      qed
      with new buy show ?thesis by simp
    next
      case ext
      with ent [OF ext(2)] buy show ?thesis by auto
    qed
  qed
  have 3: "target_house_id (oh x) \<in> fst ` set (add_bid ?t a bids)"
    if "x \<in> set (pre @ [a])" "intention (oh x) = BUY" for x
    using that cov by (auto simp: add_bid_key_set)
  from 1 2 3 show ?thesis unfolding bids_grouped_def by blast
qed

lemma bids_grouped_skip:
  assumes "bids_grouped oh pre bids" and "intention (oh a) \<noteq> BUY"
  shows "bids_grouped oh (pre @ [a]) bids"
  using assms by (auto simp: bids_grouped_def)

lemma bids_grouped_loop:
  "bids_grouped oh pre bids \<Longrightarrow> bids_grouped oh (pre @ as) (collect_bids_loop oh as bids)"
proof (induction as arbitrary: pre bids)
  case Nil
  then show ?case by simp
next
  case (Cons a as)
  have "bids_grouped oh (pre @ [a])
          (if intention (oh a) = BUY then add_bid (target_house_id (oh a)) a bids else bids)"
    using Cons.prems by (simp add: bids_grouped_add_bid bids_grouped_skip)
  from Cons.IH [OF this] show ?case by simp
qed

lemma collect_bids_grouped: "bids_grouped (owner_heap m) (agents m) (collect_bids m)"
proof -
  have "bids_grouped (owner_heap m) [] []" by (simp add: bids_grouped_def)
  from bids_grouped_loop [OF this, of "agents m"] show ?thesis by (simp add: collect_bids_def)
qed

lemma collect_bids_entries:
  assumes "(k, bs) \<in> set (collect_bids m)"
  shows "bs = bidders_for m k" and "bs \<noteq> []"
  using collect_bids_grouped [of m] assms by (auto simp: bids_grouped_def bidders_for_def)

lemma collect_bids_covers:
  assumes "a \<in> set (agents m)" and "intention (owner_heap m a) = BUY"
  shows "target_house_id (owner_heap m a) \<in> fst ` set (collect_bids m)"
  using collect_bids_grouped [of m] assms unfolding bids_grouped_def by blast

text \<open>
  The state after the whole clearing: the winner of every entry holds its target, and
  an agent that won no entry has the record it had.
\<close>

lemma resolve_bids_final:
  assumes "wf_model m" and "bids_ok m bids"
  shows "\<exists>m'. resolve_bids m bids = Inr m' \<and> wf_model m' \<and> market_frame m m'
     \<and> (\<forall>(k, bs) \<in> set bids. \<exists>w \<in> set bs. \<exists>k' t.
            select_winner (owner_heap m) bs = Inr w \<and> k = Some k' \<and> house_map m k' = Some t
            \<and> owner_heap m' w = (owner_heap m w)
                 \<lparr>savings := savings (owner_heap m w) - MOVING_COST_FIXED, house := t\<rparr>)
     \<and> (\<forall>a. (\<forall>(k, bs) \<in> set bids. a \<in> set bs \<longrightarrow> select_winner (owner_heap m) bs \<noteq> Inr a)
            \<longrightarrow> owner_heap m' a = owner_heap m a)"
  using assms
proof (induction bids arbitrary: m)
  case Nil
  then show ?case by (simp add: market_frame_refl)
next
  case (Cons e rest)
  obtain k bs where e: "e = (k, bs)" by (cases e)
  from Cons.prems(2) e have ok: "bids_ok m ((k, bs) # rest)" by simp
  then have key: "\<forall>a \<in> set bs. target_house_id (owner_heap m a) = k"
    and notin: "k \<notin> fst ` set rest"
    and keys: "\<forall>(k2, bs2) \<in> set rest. \<forall>a \<in> set bs2. target_house_id (owner_heap m a) = k2"
    by (auto simp: bids_ok_def)
  show ?case
  proof (rule resolve_step [OF Cons.prems(1) ok])
    fix w t
    assume st: "select_winner (owner_heap m) bs = Inr w" "w \<in> set bs"
      "house_map m (unique_id (house_heap m t)) = Some t"
      "k = Some (unique_id (house_heap m t))"
      "execute_move m w k = Inr (move_to m w t)"
      "wf_model (move_to m w t)" "bids_ok (move_to m w t) rest"
      "market_frame m (move_to m w t)"
    let ?m1 = "move_to m w t"
    have other: "a \<noteq> w" if "(k2, bs2) \<in> set rest" "a \<in> set bs2" for k2 bs2 a
    proof
      assume "a = w"
      with that keys have "target_house_id (owner_heap m w) = k2" by auto
      with key st(2) have "k2 = k" by auto
      with that(1) notin show False by force
    qed
    have sw: "select_winner (owner_heap ?m1) bs2 = select_winner (owner_heap m) bs2"
      if "(k2, bs2) \<in> set rest" for k2 bs2
    proof (rule select_winner_cong, rule ballI)
      fix x assume "x \<in> set bs2"
      with that have "x \<noteq> w" by (rule other)
      then show "financial_capacity (owner_heap ?m1) x = financial_capacity (owner_heap m) x"
        by (simp add: financial_capacity_def)
    qed
    from Cons.IH [OF st(6) st(7)] obtain m' where
      m': "resolve_bids ?m1 rest = Inr m'" "wf_model m'" "market_frame ?m1 m'"
      and win: "\<forall>(k, bs) \<in> set rest. \<exists>w \<in> set bs. \<exists>k' t.
            select_winner (owner_heap ?m1) bs = Inr w \<and> k = Some k' \<and> house_map ?m1 k' = Some t
            \<and> owner_heap m' w = (owner_heap ?m1 w)
                 \<lparr>savings := savings (owner_heap ?m1 w) - MOVING_COST_FIXED, house := t\<rparr>"
      and lose: "\<forall>a. (\<forall>(k, bs) \<in> set rest. a \<in> set bs \<longrightarrow> select_winner (owner_heap ?m1) bs \<noteq> Inr a)
            \<longrightarrow> owner_heap m' a = owner_heap ?m1 a"
      by blast
    from st(1,5) m'(1) e have 1: "resolve_bids m (e # rest) = Inr m'" by simp
    from st(8) m'(3) have 2: "market_frame m m'" by (rule market_frame_trans)
    have w_rest: "\<forall>(k2, bs2) \<in> set rest. w \<in> set bs2 \<longrightarrow> select_winner (owner_heap ?m1) bs2 \<noteq> Inr w"
      using other by blast
    with lose have "owner_heap m' w = owner_heap ?m1 w" by blast
    then have head: "owner_heap m' w = (owner_heap m w)
                 \<lparr>savings := savings (owner_heap m w) - MOVING_COST_FIXED, house := t\<rparr>"
      by simp
    have 3: "\<exists>w \<in> set bs'. \<exists>k' t.
            select_winner (owner_heap m) bs' = Inr w \<and> k0 = Some k' \<and> house_map m k' = Some t
            \<and> owner_heap m' w = (owner_heap m w)
                 \<lparr>savings := savings (owner_heap m w) - MOVING_COST_FIXED, house := t\<rparr>"
      if "(k0, bs') \<in> set (e # rest)" for k0 bs'
    proof (cases "(k0, bs') = (k, bs)")
      case True
      with st(1,2,3,4) head show ?thesis by blast
    next
      case False
      with that e have in_rest: "(k0, bs') \<in> set rest" by auto
      with win obtain w2 k' t2 where
        w2: "w2 \<in> set bs'" "select_winner (owner_heap ?m1) bs' = Inr w2" "k0 = Some k'"
            "house_map ?m1 k' = Some t2"
            "owner_heap m' w2 = (owner_heap ?m1 w2)
                 \<lparr>savings := savings (owner_heap ?m1 w2) - MOVING_COST_FIXED, house := t2\<rparr>"
        by blast
      from in_rest w2(1) have "w2 \<noteq> w" by (rule other)
      with w2(5) have "owner_heap m' w2 = (owner_heap m w2)
                 \<lparr>savings := savings (owner_heap m w2) - MOVING_COST_FIXED, house := t2\<rparr>"
        by simp
      moreover from w2(2) sw [OF in_rest] have "select_winner (owner_heap m) bs' = Inr w2" by simp
      moreover from w2(4) have "house_map m k' = Some t2" by simp
      ultimately show ?thesis using w2(1,3) by blast
    qed
    have 4: "owner_heap m' a = owner_heap m a"
      if a: "\<forall>(k0, bs') \<in> set (e # rest). a \<in> set bs' \<longrightarrow> select_winner (owner_heap m) bs' \<noteq> Inr a"
      for a
    proof -
      from a e st(1,2) have ne: "a \<noteq> w" by auto
      have "\<forall>(k2, bs2) \<in> set rest. a \<in> set bs2 \<longrightarrow> select_winner (owner_heap ?m1) bs2 \<noteq> Inr a"
        using a sw by auto
      with lose have "owner_heap m' a = owner_heap ?m1 a" by blast
      with ne show ?thesis by simp
    qed
    from 1 m'(2) 2 3 4 show ?thesis by blast
  qed
qed

text \<open>
  C4: after the decisions of a tick in a well-formed state, the bids are grouped by
  target, every \<open>BUY\<close> intention is filed, and the market clearing returns. For each
  contested house the bidders are exactly the agents that intend to buy it; one of them
  wins, with a financial capacity (savings plus five times the income) that no bidder for
  the house exceeds, so a bidder with strictly the greatest capacity is the winner. After
  the clearing the winner owns the house and has paid the moving cost, and every other
  bidder has the record (savings, house reference) and the house it had.
\<close>

theorem winner_has_maximal_capacity:
  assumes "wf_model m0" and "rounding rnd" and "schedule_step rnd m0 = Inr m"
  shows "\<exists>m'. resolve_market_conflicts m = Inr m'
     \<and> (\<forall>a \<in> set (agents m). intention (owner_heap m a) = BUY \<longrightarrow>
            target_house_id (owner_heap m a) \<in> fst ` set (collect_bids m))
     \<and> (\<forall>(k, bs) \<in> set (collect_bids m). bs = bidders_for m k \<and> bs \<noteq> []
          \<and> (\<exists>w \<in> set bs. \<exists>t \<in> set (vacancy_pool m).
                select_winner (owner_heap m) bs = Inr w
              \<and> (\<forall>b \<in> set bs. financial_capacity (owner_heap m) b
                                  \<le> financial_capacity (owner_heap m) w)
              \<and> (\<forall>b \<in> set bs. (\<forall>c \<in> set bs. c \<noteq> b \<longrightarrow>
                     financial_capacity (owner_heap m) c < financial_capacity (owner_heap m) b)
                   \<longrightarrow> w = b)
              \<and> financial_capacity (owner_heap m) w
                  = savings (owner_heap m w) + 5 * income (owner_heap m w)
              \<and> k = Some (unique_id (house_heap m t))
              \<and> house (owner_heap m' w) = t \<and> owner (house_heap m' t) = Some w
              \<and> savings (owner_heap m' w) = savings (owner_heap m w) - MOVING_COST_FIXED
              \<and> (\<forall>b \<in> set bs. b \<noteq> w \<longrightarrow>
                    owner_heap m' b = owner_heap m b
                    \<and> house_heap m' (house (owner_heap m b))
                        = house_heap m (house (owner_heap m b)))))"
proof -
  note R = assms(2)
  obtain m1 where m1: "schedule_step rnd m0 = Inr m1" "same_world m0 m1"
    "\<forall>a \<in> set (agents m1). intent_ok m1 a" by (rule schedule_step_ok [OF R])
  with assms(3) have sw: "same_world m0 m" and int: "\<forall>a \<in> set (agents m). intent_ok m a"
    by simp_all
  from sw assms(1) have wf: "wf_model m" by (rule same_world_wf)
  note c = wf_modelD [OF wf]
  from int have ok: "bids_ok m (collect_bids m)" by (rule collect_bids_ok)
  from resolve_bids_final [OF wf ok] obtain m' where
    m': "resolve_bids m (collect_bids m) = Inr m'" "wf_model m'" "market_frame m m'"
    and win: "\<forall>(k, bs) \<in> set (collect_bids m). \<exists>w \<in> set bs. \<exists>k' t.
            select_winner (owner_heap m) bs = Inr w \<and> k = Some k' \<and> house_map m k' = Some t
            \<and> owner_heap m' w = (owner_heap m w)
                 \<lparr>savings := savings (owner_heap m w) - MOVING_COST_FIXED, house := t\<rparr>"
    and lose: "\<forall>a. (\<forall>(k, bs) \<in> set (collect_bids m). a \<in> set bs
                     \<longrightarrow> select_winner (owner_heap m) bs \<noteq> Inr a)
            \<longrightarrow> owner_heap m' a = owner_heap m a"
    by blast
  note c' = wf_modelD [OF m'(2)]
  from m'(3) have ag: "agents m' = agents m" and hm: "houses m' = houses m"
    by (simp_all add: market_frame_def houses_def)
  have 1: "resolve_market_conflicts m = Inr m'"
    using m'(1) by (simp add: resolve_market_conflicts_def)
  have 2: "\<forall>a \<in> set (agents m). intention (owner_heap m a) = BUY \<longrightarrow>
            target_house_id (owner_heap m a) \<in> fst ` set (collect_bids m)"
    by (blast intro: collect_bids_covers)
  have 3: "bs = bidders_for m k \<and> bs \<noteq> []
          \<and> (\<exists>w \<in> set bs. \<exists>t \<in> set (vacancy_pool m).
                select_winner (owner_heap m) bs = Inr w
              \<and> (\<forall>b \<in> set bs. financial_capacity (owner_heap m) b
                                  \<le> financial_capacity (owner_heap m) w)
              \<and> (\<forall>b \<in> set bs. (\<forall>c \<in> set bs. c \<noteq> b \<longrightarrow>
                     financial_capacity (owner_heap m) c < financial_capacity (owner_heap m) b)
                   \<longrightarrow> w = b)
              \<and> financial_capacity (owner_heap m) w
                  = savings (owner_heap m w) + 5 * income (owner_heap m w)
              \<and> k = Some (unique_id (house_heap m t))
              \<and> house (owner_heap m' w) = t \<and> owner (house_heap m' t) = Some w
              \<and> savings (owner_heap m' w) = savings (owner_heap m w) - MOVING_COST_FIXED
              \<and> (\<forall>b \<in> set bs. b \<noteq> w \<longrightarrow>
                    owner_heap m' b = owner_heap m b
                    \<and> house_heap m' (house (owner_heap m b))
                        = house_heap m (house (owner_heap m b))))"
    if entry: "(k, bs) \<in> set (collect_bids m)" for k bs
  proof -
    note grp = collect_bids_entries [OF entry]
    from ok entry have ags: "\<forall>a \<in> set bs. a \<in> set (agents m)"
      and tgt: "\<forall>a \<in> set bs. target_house_id (owner_heap m a) = k"
      and pool: "\<exists>t \<in> set (vacancy_pool m). k = Some (unique_id (house_heap m t))"
      and dk: "distinct (map fst (collect_bids m))"
      by (auto simp: bids_ok_def)
    from pool obtain t where t: "t \<in> set (vacancy_pool m)" "k = Some (unique_id (house_heap m t))"
      by blast
    from wf t(1) have reg: "house_map m (unique_id (house_heap m t)) = Some t"
      by (rule pool_house_registered)
    from win entry obtain w k' t' where
      w: "w \<in> set bs" "select_winner (owner_heap m) bs = Inr w" "k = Some k'"
         "house_map m k' = Some t'"
         "owner_heap m' w = (owner_heap m w)
                 \<lparr>savings := savings (owner_heap m w) - MOVING_COST_FIXED, house := t'\<rparr>"
      by blast
    from w(3,4) t(2) reg have tt: "t' = t" by simp
    from grp(2) obtain w0 where
      w0: "select_winner (owner_heap m) bs = Inr w0"
          "\<forall>b \<in> set bs. financial_capacity (owner_heap m) b \<le> financial_capacity (owner_heap m) w0"
      by (rule select_winner_max)
    with w(2) have mx: "\<forall>b \<in> set bs. financial_capacity (owner_heap m) b
                                  \<le> financial_capacity (owner_heap m) w" by simp
    have strict: "\<forall>b \<in> set bs. (\<forall>c \<in> set bs. c \<noteq> b \<longrightarrow>
            financial_capacity (owner_heap m) c < financial_capacity (owner_heap m) b) \<longrightarrow> w = b"
    proof (intro ballI impI)
      fix b assume b: "b \<in> set bs" and
        gt: "\<forall>c \<in> set bs. c \<noteq> b \<longrightarrow>
               financial_capacity (owner_heap m) c < financial_capacity (owner_heap m) b"
      show "w = b"
      proof (rule ccontr)
        assume "w \<noteq> b"
        with gt w(1) have "financial_capacity (owner_heap m) w < financial_capacity (owner_heap m) b"
          by simp
        with mx b show False by force
      qed
    qed
    have cap: "financial_capacity (owner_heap m) w
         = savings (owner_heap m w) + 5 * income (owner_heap m w)"
      by (simp add: financial_capacity_def calculate_mortgage_capacity_def)
    from w(5) tt have hw: "house (owner_heap m' w) = t"
      and sv: "savings (owner_heap m' w) = savings (owner_heap m w) - MOVING_COST_FIXED"
      by simp_all
    from w(1) ags have "w \<in> set (agents m')" by (simp add: ag)
    with c'(6) hw have ow: "owner (house_heap m' t) = Some w"
      by (auto simp: owners_linked_def)
    have others: "\<forall>b \<in> set bs. b \<noteq> w \<longrightarrow>
                    owner_heap m' b = owner_heap m b
                    \<and> house_heap m' (house (owner_heap m b))
                        = house_heap m (house (owner_heap m b))"
    proof (intro ballI impI)
      fix b assume b: "b \<in> set bs" and ne: "b \<noteq> w"
      have "\<forall>(k2, bs2) \<in> set (collect_bids m). b \<in> set bs2
                     \<longrightarrow> select_winner (owner_heap m) bs2 \<noteq> Inr b"
      proof (intro ballI, clarify)
        fix k2 bs2 assume e2: "(k2, bs2) \<in> set (collect_bids m)" and b2: "b \<in> set bs2"
          and w2: "select_winner (owner_heap m) bs2 = Inr b"
        from ok e2 b2 have "target_house_id (owner_heap m b) = k2" by (auto simp: bids_ok_def)
        with tgt b have "k2 = k" by auto
        with e2 entry dk have "bs2 = bs" by (metis eq_key_imp_eq_value)
        with w2 w(2) ne show False by simp
      qed
      with lose have rec: "owner_heap m' b = owner_heap m b" by blast
      let ?h = "house (owner_heap m b)"
      from b ags have bm: "b \<in> set (agents m)" by simp
      with c(6) have h: "?h \<in> houses m" "owner (house_heap m ?h) = Some b"
        by (auto simp: owners_linked_def)
      from bm c'(6) rec have h': "owner (house_heap m' ?h) = Some b"
        by (auto simp: owners_linked_def ag)
      from c(1) h have v: "\<not> is_vacant (house_heap m ?h)" by (auto simp: vacant_xor_owned_def)
      from c'(1) h(1) h' have v': "\<not> is_vacant (house_heap m' ?h)"
        by (auto simp: vacant_xor_owned_def hm)
      from m'(3) have fr: "energy_label (house_heap m' ?h) = energy_label (house_heap m ?h)"
        "market_value (house_heap m' ?h) = market_value (house_heap m ?h)"
        "unique_id (house_heap m' ?h) = unique_id (house_heap m ?h)"
        "size_m2 (house_heap m' ?h) = size_m2 (house_heap m ?h)"
        "quality (house_heap m' ?h) = quality (house_heap m ?h)"
        by (simp_all add: market_frame_def)
      have "house_heap m' ?h = house_heap m ?h"
        using fr h(2) h' v v' by (intro House.equality) simp_all
      with rec show "owner_heap m' b = owner_heap m b
                    \<and> house_heap m' (house (owner_heap m b))
                        = house_heap m (house (owner_heap m b))" by simp
    qed
    from grp w(1,2) t mx strict cap hw ow sv others show ?thesis by blast
  qed
  from 1 2 3 show ?thesis by blast
qed

section \<open>The small market, run\<close>

lemma example_valid: "valid_draws example_houses example_owners"
  by (simp add: valid_draws_def valid_house_draw_def valid_owner_draw_def example_houses_def example_owners_def)

lemma example_init: "init_model example_houses example_owners = Inr example_model"
  by (simp add: init_model_def example_houses_def example_owners_def empty_model_def
        example_model_def upt_conv_Cons)
     (auto simp: fun_eq_iff numeral_2_eq_2)

subsection \<open>Decisions from compared scores\<close>

lemma HomeOwner_step_buy:
  assumes R: "rounding rnd" and pool: "affordable_pool m r = [t]"
    and "S_upgrade rnd m r < buy_score rnd m r t" and "S_current rnd m r < buy_score rnd m r t"
  shows "HomeOwner_step rnd m r = Inr (set_intention m r BUY (Some (unique_id (house_heap m t))))"
proof -
  from assms(3,4) have gt: "best_buy_score rnd m r > S_upgrade rnd m r"
    "best_buy_score rnd m r > S_current rnd m r"
    by (simp_all add: best_buy_single [OF pool])
  from best_buy_target [OF gt(2) R] pool have "fst (market_scan rnd m r) = Some t" by simp
  with gt show ?thesis by (simp add: HomeOwner_step_cases [OF R])
qed

lemma HomeOwner_step_upgrade:
  assumes R: "rounding rnd" and "best_buy_score rnd m r < S_upgrade rnd m r"
    and "S_current rnd m r < S_upgrade rnd m r"
  shows "HomeOwner_step rnd m r = Inr (set_intention m r UPGRADE None)"
  using assms(2,3) by (simp add: HomeOwner_step_cases [OF R])

lemma sentinel_less:
  assumes "rounding rnd"
  shows "- 999 < calculate_satisfaction_fl rnd p a uc mc b"
  using calculate_satisfaction_fl_bounds(1) [OF assms, of p a uc mc b] by simp

lemmas decision_simps =
  new_HomeOwner_def new_House_def affordable_pool_def buy_score_def financial_capacity_def
  S_current_def S_upgrade_def calculate_mortgage_capacity_def set_intention_def Let_def

subsection \<open>The first tick\<close>

lemma example_step0:
  assumes R: "rounding rnd"
  shows "HomeOwner_step rnd example_model 0 = Inr (set_intention example_model 0 BUY (Some 2))"
proof -
  have "unique_id (house_heap example_model 2) = 2" by (simp add: example_simps)
  with HomeOwner_step_buy [OF R ex_scores(3) [OF R]] ex_scores(1,2) [OF R] show ?thesis
    by (simp add: best_buy_single [OF ex_scores(3) [OF R]])
qed

lemma example_scores1:
  assumes R: "rounding rnd"
  shows "best_buy_score rnd (set_intention example_model 0 BUY (Some 2)) 1
           < S_upgrade rnd (set_intention example_model 0 BUY (Some 2)) 1"
    and "S_current rnd (set_intention example_model 0 BUY (Some 2)) 1
           < S_upgrade rnd (set_intention example_model 0 BUY (Some 2)) 1"
proof -
  have a: "affordable_pool (set_intention example_model 0 BUY (Some 2)) 1 = []"
    by (simp add: example_model_def decision_simps)
  show "best_buy_score rnd (set_intention example_model 0 BUY (Some 2)) 1
           < S_upgrade rnd (set_intention example_model 0 BUY (Some 2)) 1"
    unfolding best_buy_none [OF a]
    by (simp add: example_model_def decision_simps model_consts) (rule sentinel_less [OF R])
  show "S_current rnd (set_intention example_model 0 BUY (Some 2)) 1
           < S_upgrade rnd (set_intention example_model 0 BUY (Some 2)) 1"
    by (simp add: example_model_def decision_simps model_consts)
       (rule score_gt [OF R], simp add: score_simps model_consts)
qed

lemma example_step1:
  assumes R: "rounding rnd"
  shows "HomeOwner_step rnd (set_intention example_model 0 BUY (Some 2)) 1 =
     Inr (set_intention (set_intention example_model 0 BUY (Some 2)) 1 UPGRADE None)"
  using R example_scores1 [OF R] by (rule HomeOwner_step_upgrade)

lemma example_decided_eq:
  "set_intention (set_intention example_model 0 BUY (Some 2)) 1 UPGRADE None = example_decided"
  by (simp add: set_intention_def example_decided_def example_model_def owner0_def owner1_def
        new_HomeOwner_def fun_eq_iff)

lemma example_schedule_step:
  assumes R: "rounding rnd"
  shows "schedule_step rnd example_model = Inr example_decided"
proof -
  have "agents example_model = [0, 1]" by (simp add: example_model_def)
  with example_step0 [OF R] example_step1 [OF R] example_decided_eq show ?thesis
    by (simp add: schedule_step_def)
qed

lemma example_collect_bids: "collect_bids example_decided = [(Some 2, [0])]"
  by (simp add: collect_bids_def example_decided_def example_model_def owner0_def owner1_def)

lemma example_resolve:
  "resolve_market_conflicts example_decided = Inr (move_to example_decided 0 2)"
proof -
  have "house_map example_decided 2 = Some 2"
    by (simp add: example_decided_def example_model_def)
  then have "execute_move example_decided 0 (Some 2) = Inr (move_to example_decided 0 2)"
    by (rule execute_move_Some)
  then show ?thesis
    by (simp add: resolve_market_conflicts_def example_collect_bids select_winner_def
          sorted_reverse_def)
qed

lemma example_upgrades:
  "handle_upgrades (move_to example_decided 0 2) (agents (move_to example_decided 0 2))
     = example_tick1"
  by (simp add: example_decided_def example_model_def owner0_def owner1_def
        apply_upgrade_def update_energy_label_def move_to_def Let_def example_tick1_def
        new_House_def new_HomeOwner_def model_consts)
     (auto simp: fun_eq_iff)

lemma example_tick:
  assumes R: "rounding rnd"
  shows "HousingModel_step rnd example_model = Inr example_tick1"
  using example_upgrades
  by (simp add: HousingModel_step_def example_schedule_step [OF R] example_resolve)

subsection \<open>The second tick\<close>

lemma example2_scores0:
  assumes R: "rounding rnd"
  shows "best_buy_score rnd example_tick1 0 < S_upgrade rnd example_tick1 0"
    and "S_current rnd example_tick1 0 < S_upgrade rnd example_tick1 0"
proof -
  have a: "affordable_pool example_tick1 0 = [0]"
    by (simp add: example_tick1_def decision_simps)
  show "best_buy_score rnd example_tick1 0 < S_upgrade rnd example_tick1 0"
    unfolding best_buy_single [OF a]
    by (simp add: example_tick1_def decision_simps model_consts)
       (rule score_gt [OF R], simp add: score_simps model_consts)
  show "S_current rnd example_tick1 0 < S_upgrade rnd example_tick1 0"
    by (simp add: example_tick1_def decision_simps model_consts)
       (rule score_gt [OF R], simp add: score_simps model_consts)
qed

lemma example2_step0:
  assumes R: "rounding rnd"
  shows "HomeOwner_step rnd example_tick1 0 = Inr (set_intention example_tick1 0 UPGRADE None)"
  using R example2_scores0 [OF R] by (rule HomeOwner_step_upgrade)

lemma example2_scores1:
  assumes R: "rounding rnd"
  shows "affordable_pool (set_intention example_tick1 0 UPGRADE None) 1 = [0]"
    and "S_upgrade rnd (set_intention example_tick1 0 UPGRADE None) 1
           < buy_score rnd (set_intention example_tick1 0 UPGRADE None) 1 0"
    and "S_current rnd (set_intention example_tick1 0 UPGRADE None) 1
           < buy_score rnd (set_intention example_tick1 0 UPGRADE None) 1 0"
proof -
  show "affordable_pool (set_intention example_tick1 0 UPGRADE None) 1 = [0]"
    by (simp add: example_tick1_def decision_simps)
  show "S_upgrade rnd (set_intention example_tick1 0 UPGRADE None) 1
           < buy_score rnd (set_intention example_tick1 0 UPGRADE None) 1 0"
    by (simp add: example_tick1_def decision_simps model_consts) (rule sentinel_less [OF R])
  show "S_current rnd (set_intention example_tick1 0 UPGRADE None) 1
           < buy_score rnd (set_intention example_tick1 0 UPGRADE None) 1 0"
    by (simp add: example_tick1_def decision_simps model_consts)
       (rule score_gt [OF R], simp add: score_simps model_consts)
qed

lemma example2_step1:
  assumes R: "rounding rnd"
  shows "HomeOwner_step rnd (set_intention example_tick1 0 UPGRADE None) 1 = Inr example_decided2"
proof -
  have "unique_id (house_heap (set_intention example_tick1 0 UPGRADE None) 0) = 0"
    by (simp add: example_tick1_def set_intention_def)
  with HomeOwner_step_buy [OF R example2_scores1 [OF R]] show ?thesis
    by (simp add: example_decided2_def)
qed

lemma example2_schedule_step:
  assumes R: "rounding rnd"
  shows "schedule_step rnd example_tick1 = Inr example_decided2"
proof -
  have "agents example_tick1 = [0, 1]" by (simp add: example_tick1_def)
  with example2_step0 [OF R] example2_step1 [OF R] show ?thesis
    by (simp add: schedule_step_def)
qed

lemma example2_collect_bids: "collect_bids example_decided2 = [(Some 0, [1])]"
  by (simp add: collect_bids_def example_decided2_def example_tick1_def)

lemma example2_facts:
  "house_map example_decided2 0 = Some 0"
  "savings (owner_heap example_decided2 1) = 1000"
  "market_value (house_heap example_decided2 0) = 100000"
  by (simp_all add: example_decided2_def example_tick1_def)

lemma example_reachable: "reachable rnd example_model"
  using example_valid example_init by (rule reachable.init)

lemma example_tick1_reachable: "rounding rnd \<Longrightarrow> reachable rnd example_tick1"
  using example_reachable example_tick by (rule reachable.tick)

lemma execute_move_savings:
  "execute_move m b hid = Inr m' \<Longrightarrow>
     savings (owner_heap m' b) = savings (owner_heap m b) - MOVING_COST_FIXED"
  by (auto simp: execute_move_cases split: option.splits)

text \<open>
  C9: a move that returns has deducted exactly the fixed moving cost from the buyer's
  savings, whatever the price of the house, and it returns whenever the target identifier
  is registered; an upgrade deducts exactly the fixed upgrade cost, and the upgrade loop
  applies it to an agent on the intention alone. Neither looks at the savings. With the
  scores rounded to doubles, there is a reachable state in which, after the decisions, the
  only bidder for a house wins it and the move leaves that buyer's savings below zero.
\<close>

theorem moves_and_upgrades_unchecked:
  "(execute_move m b hid = Inr m' \<longrightarrow>
      savings (owner_heap m' b) = savings (owner_heap m b) - MOVING_COST_FIXED)
   \<and> (house_map m k = Some t \<longrightarrow> (\<exists>m''. execute_move m b (Some k) = Inr m''))
   \<and> savings (owner_heap (apply_upgrade m a) a)
        = savings (owner_heap m a) - COST_PER_LABEL_UPGRADE
   \<and> (intention (owner_heap m a) = UPGRADE \<longrightarrow> handle_upgrades m [a] = apply_upgrade m a)
   \<and> MOVING_COST_FIXED = 2000 \<and> COST_PER_LABEL_UPGRADE = 5000
   \<and> (rounding rnd \<longrightarrow>
        (\<exists>m1 m2 w h m3. reachable rnd m1 \<and> schedule_step rnd m1 = Inr m2
          \<and> collect_bids m2 = [(h, [w])] \<and> select_winner (owner_heap m2) [w] = Inr w
          \<and> execute_move m2 w h = Inr m3 \<and> 0 \<le> savings (owner_heap m2 w)
          \<and> savings (owner_heap m3 w) < 0))"
proof -
  have 1: "execute_move m b hid = Inr m' \<longrightarrow>
      savings (owner_heap m' b) = savings (owner_heap m b) - MOVING_COST_FIXED"
    by (simp add: execute_move_savings)
  have 2: "house_map m k = Some t \<longrightarrow> (\<exists>m''. execute_move m b (Some k) = Inr m'')"
    by (simp add: execute_move_Some)
  have 3: "savings (owner_heap (apply_upgrade m a) a)
        = savings (owner_heap m a) - COST_PER_LABEL_UPGRADE"
    by (simp add: apply_upgrade_simps)
  have 4: "intention (owner_heap m a) = UPGRADE \<longrightarrow> handle_upgrades m [a] = apply_upgrade m a"
    by simp
  have mv: "execute_move example_decided2 1 (Some 0) = Inr (move_to example_decided2 1 0)"
    using example2_facts(1) by (rule execute_move_Some)
  have neg: "savings (owner_heap (move_to example_decided2 1 0) 1) < 0"
    using example2_facts(2) by (simp add: model_consts)
  have sw: "select_winner (owner_heap example_decided2) [1] = Inr 1"
    by (simp add: select_winner_def sorted_reverse_def)
  have 5: "\<exists>m1 m2 w h m3. reachable rnd m1 \<and> schedule_step rnd m1 = Inr m2
          \<and> collect_bids m2 = [(h, [w])] \<and> select_winner (owner_heap m2) [w] = Inr w
          \<and> execute_move m2 w h = Inr m3 \<and> 0 \<le> savings (owner_heap m2 w)
          \<and> savings (owner_heap m3 w) < 0" if R: "rounding rnd"
    using example_tick1_reachable [OF R] example2_schedule_step [OF R] example2_collect_bids
      sw mv neg example2_facts(2)
    by (intro exI [of _ example_tick1] exI [of _ example_decided2] exI [of _ 1]
          exI [of _ "Some 0"] exI [of _ "move_to example_decided2 1 0"]) simp
  from 1 2 3 4 5 show ?thesis by (simp add: model_consts)
qed

theorem moves_and_upgrades_unchecked_witness:
  "rounding double
   \<and> execute_move example_decided2 1 (Some 0) = Inr (move_to example_decided2 1 0)
   \<and> market_value (house_heap example_decided2 0) = 100000
   \<and> savings (owner_heap example_decided2 1) = 1000
   \<and> savings (owner_heap (move_to example_decided2 1 0) 1) = - 1000
   \<and> intention (owner_heap example_decided 1) = UPGRADE
   \<and> handle_upgrades example_decided [1] = apply_upgrade example_decided 1
   \<and> savings (owner_heap (apply_upgrade example_decided 1) 1) = 1000
   \<and> (\<exists>m1 m2 w h m3. reachable double m1 \<and> schedule_step double m1 = Inr m2
          \<and> collect_bids m2 = [(h, [w])] \<and> select_winner (owner_heap m2) [w] = Inr w
          \<and> execute_move m2 w h = Inr m3 \<and> 0 \<le> savings (owner_heap m2 w)
          \<and> savings (owner_heap m3 w) < 0)"
proof -
  have mv: "execute_move example_decided2 1 (Some 0) = Inr (move_to example_decided2 1 0)"
    using example2_facts(1) by (rule execute_move_Some)
  have up: "intention (owner_heap example_decided 1) = UPGRADE"
    "savings (owner_heap example_decided 1) = 6000"
    by (simp_all add: example_decided_def owner1_def)
  note inst1 = moves_and_upgrades_unchecked
    [of example_decided2 1 "Some 0" "move_to example_decided2 1 0" 0 0 1 double]
  note inst2 = moves_and_upgrades_unchecked
    [of example_decided 1 "Some 0" "move_to example_decided2 1 0" 0 0 1 double]
  from inst1 mv have "savings (owner_heap (move_to example_decided2 1 0) 1)
      = savings (owner_heap example_decided2 1) - MOVING_COST_FIXED" by blast
  with example2_facts(2) have a: "savings (owner_heap (move_to example_decided2 1 0) 1) = - 1000"
    by (simp only: model_consts)
  from inst2 up have b: "handle_upgrades example_decided [1] = apply_upgrade example_decided 1"
    "savings (owner_heap (apply_upgrade example_decided 1) 1) = 1000"
    by (simp_all add: model_consts)
  from inst1 rounding_double have c: "\<exists>m1 m2 w h m3. reachable double m1
          \<and> schedule_step double m1 = Inr m2
          \<and> collect_bids m2 = [(h, [w])] \<and> select_winner (owner_heap m2) [w] = Inr w
          \<and> execute_move m2 w h = Inr m3 \<and> 0 \<le> savings (owner_heap m2 w)
          \<and> savings (owner_heap m3 w) < 0" by blast
  from rounding_double mv a b up(1) example2_facts c show ?thesis by simp
qed

theorem vacancy_invariant_witness:
  "reachable double example_model \<and> rounding double \<and> asset_inv example_model
   \<and> schedule_step double example_model = Inr example_decided
   \<and> collect_bids example_decided = [(Some 2, [0])] @ []
   \<and> (\<exists>mi. resolve_bids example_decided [(Some 2, [0])] = Inr mi \<and> asset_inv mi
             \<and> house (owner_heap mi 0) = 2)
   \<and> (\<exists>m'. HousingModel_step double example_model = Inr m' \<and> asset_inv m')"
proof -
  note R = rounding_double
  note inst = vacancy_invariant [OF example_reachable R]
  from inst have inv: "asset_inv example_model"
    by (simp add: asset_inv_def vacant_xor_owned_def pool_exact_def)
  have cb: "collect_bids example_decided = [(Some 2, [0])] @ []"
    by (simp add: example_collect_bids)
  from inst example_schedule_step [OF R] cb
  obtain mi where mi: "resolve_bids example_decided [(Some 2, [0])] = Inr mi" "asset_inv mi"
    by blast
  from example_resolve have "resolve_bids example_decided [(Some 2, [0])]
      = Inr (move_to example_decided 0 2)"
    by (simp add: resolve_market_conflicts_def example_collect_bids)
  with mi(1) have "house (owner_heap mi 0) = 2" by auto
  with mi have mid: "\<exists>mi. resolve_bids example_decided [(Some 2, [0])] = Inr mi \<and> asset_inv mi
             \<and> house (owner_heap mi 0) = 2" by blast
  from inst have "\<exists>m'. HousingModel_step double example_model = Inr m' \<and> asset_inv m'" by blast
  with example_reachable R inv example_schedule_step [OF R] cb mid show ?thesis by blast
qed

theorem energy_label_bounded_monotone_witness:
  "valid_draws example_houses example_owners
   \<and> init_model example_houses example_owners = Inr example_model
   \<and> rounding double
   \<and> run double 1 example_model = Inr example_tick1
   \<and> energy_label (house_heap example_model 1) = 0
   \<and> energy_label (house_heap example_tick1 1) = 1
   \<and> market_value (house_heap example_model 1) \<le> market_value (house_heap example_tick1 1)
   \<and> (\<exists>m. run double 2 example_model = Inr m
         \<and> energy_label (house_heap example_tick1 1) \<le> energy_label (house_heap m 1)
         \<and> energy_label (house_heap m 1) \<le> 7)"
proof -
  note R = rounding_double
  have r1: "run double 1 example_model = Inr example_tick1"
    using example_tick [OF R] by simp
  from energy_label_bounded_monotone [OF example_valid example_init R, of 2]
  obtain m where m: "run double 2 example_model = Inr m" "houses m = houses example_model"
    "\<forall>h \<in> houses m. 0 \<le> energy_label (house_heap m h) \<and> energy_label (house_heap m h) \<le> 7"
    "\<forall>j \<le> 2. \<exists>mj. run double j example_model = Inr mj
           \<and> (\<forall>h. energy_label (house_heap mj h) \<le> energy_label (house_heap m h)
                  \<and> market_value (house_heap mj h) \<le> market_value (house_heap m h))"
    by blast
  have "house_map example_model 1 = Some 1" by (simp add: example_model_def)
  then have "1 \<in> houses example_model" unfolding houses_def by (rule ranI)
  with m(2,3) have le7: "energy_label (house_heap m 1) \<le> 7" by simp
  from m(4) have "\<exists>mj. run double 1 example_model = Inr mj
           \<and> (\<forall>h. energy_label (house_heap mj h) \<le> energy_label (house_heap m h)
                  \<and> market_value (house_heap mj h) \<le> market_value (house_heap m h))"
    by (metis one_le_numeral)
  with r1 have ge: "energy_label (house_heap example_tick1 1) \<le> energy_label (house_heap m 1)"
    by auto
  have vals: "energy_label (house_heap example_model 1) = 0"
    "energy_label (house_heap example_tick1 1) = 1"
    "market_value (house_heap example_model 1) \<le> market_value (house_heap example_tick1 1)"
    by (simp_all add: example_model_def example_tick1_def new_House_def)
  from example_valid example_init R r1 vals m(1) ge le7 show ?thesis by blast
qed

theorem buy_targets_vacant_witness:
  "reachable double example_model \<and> schedule_step double example_model = Inr example_decided
   \<and> rounding double
   \<and> 0 \<in> set (agents example_decided) \<and> intention (owner_heap example_decided 0) = BUY
   \<and> target_house_id (owner_heap example_decided 0) = Some 2
   \<and> (\<exists>t \<in> set (vacancy_pool example_model).
         target_house_id (owner_heap example_decided 0)
           = Some (unique_id (house_heap example_model t))
         \<and> house_map example_model (unique_id (house_heap example_model t)) = Some t
         \<and> owner (house_heap example_model t) = None
         \<and> house (owner_heap example_model 0) \<noteq> t \<and> house (owner_heap example_model 1) \<noteq> t)
   \<and> (\<exists>m2. resolve_market_conflicts example_decided = Inr m2)"
proof -
  note R = rounding_double
  note inst = buy_targets_vacant [OF example_reachable example_schedule_step [OF R] R]
  have a: "0 \<in> set (agents example_decided)" "intention (owner_heap example_decided 0) = BUY"
    "target_house_id (owner_heap example_decided 0) = Some 2"
    by (simp_all add: example_decided_def example_model_def owner0_def)
  have ags: "0 \<in> set (agents example_model)" "1 \<in> set (agents example_model)"
    by (simp_all add: example_model_def)
  from inst a(1,2) obtain t where t: "t \<in> set (vacancy_pool example_model)"
    "target_house_id (owner_heap example_decided 0) = Some (unique_id (house_heap example_model t))"
    "house_map example_model (unique_id (house_heap example_model t)) = Some t"
    "owner (house_heap example_model t) = None"
    "\<forall>b \<in> set (agents example_model). house (owner_heap example_model b) \<noteq> t
         \<and> house (owner_heap example_decided b) \<noteq> t"
    by blast
  from t(5) ags have "house (owner_heap example_model 0) \<noteq> t"
    "house (owner_heap example_model 1) \<noteq> t" by blast+
  with t have "\<exists>t \<in> set (vacancy_pool example_model).
         target_house_id (owner_heap example_decided 0)
           = Some (unique_id (house_heap example_model t))
         \<and> house_map example_model (unique_id (house_heap example_model t)) = Some t
         \<and> owner (house_heap example_model t) = None
         \<and> house (owner_heap example_model 0) \<noteq> t \<and> house (owner_heap example_model 1) \<noteq> t"
    by blast
  moreover from inst have "\<exists>m2. resolve_market_conflicts example_decided = Inr m2" by blast
  ultimately show ?thesis using example_reachable example_schedule_step [OF R] R a by blast
qed

subsection \<open>Two bidders for one house\<close>

lemma auction_init: "init_model auction_houses auction_owners = Inr example_auction"
  by (simp add: init_model_def auction_houses_def auction_owners_def empty_model_def
        example_auction_def upt_conv_Cons)
     (auto simp: fun_eq_iff numeral_2_eq_2)

lemma auction_wf: "wf_model example_auction"
  using auction_init by (rule init_model_wf) (simp add: auction_houses_def)

lemma auction_scores0:
  assumes R: "rounding rnd"
  shows "affordable_pool example_auction 0 = [2]"
    and "S_upgrade rnd example_auction 0 < buy_score rnd example_auction 0 2"
    and "S_current rnd example_auction 0 < buy_score rnd example_auction 0 2"
proof -
  show "affordable_pool example_auction 0 = [2]"
    by (simp add: example_auction_def decision_simps)
  show "S_upgrade rnd example_auction 0 < buy_score rnd example_auction 0 2"
    by (simp add: example_auction_def decision_simps model_consts) (rule sentinel_less [OF R])
  show "S_current rnd example_auction 0 < buy_score rnd example_auction 0 2"
    by (simp add: example_auction_def decision_simps model_consts)
       (rule score_gt [OF R], simp add: score_simps model_consts)
qed

lemma auction_step0:
  assumes R: "rounding rnd"
  shows "HomeOwner_step rnd example_auction 0 = Inr (set_intention example_auction 0 BUY (Some 2))"
proof -
  have "unique_id (house_heap example_auction 2) = 2"
    by (simp add: example_auction_def new_House_def)
  with HomeOwner_step_buy [OF R auction_scores0 [OF R]] show ?thesis by simp
qed

lemma auction_scores1:
  assumes R: "rounding rnd"
  shows "affordable_pool (set_intention example_auction 0 BUY (Some 2)) 1 = [2]"
    and "S_upgrade rnd (set_intention example_auction 0 BUY (Some 2)) 1
           < buy_score rnd (set_intention example_auction 0 BUY (Some 2)) 1 2"
    and "S_current rnd (set_intention example_auction 0 BUY (Some 2)) 1
           < buy_score rnd (set_intention example_auction 0 BUY (Some 2)) 1 2"
proof -
  show "affordable_pool (set_intention example_auction 0 BUY (Some 2)) 1 = [2]"
    by (simp add: example_auction_def decision_simps)
  show "S_upgrade rnd (set_intention example_auction 0 BUY (Some 2)) 1
           < buy_score rnd (set_intention example_auction 0 BUY (Some 2)) 1 2"
    by (simp add: example_auction_def decision_simps model_consts)
       (rule score_gt [OF R], simp add: score_simps model_consts)
  show "S_current rnd (set_intention example_auction 0 BUY (Some 2)) 1
           < buy_score rnd (set_intention example_auction 0 BUY (Some 2)) 1 2"
    by (simp add: example_auction_def decision_simps model_consts)
       (rule score_gt [OF R], simp add: score_simps model_consts)
qed

lemma auction_step1:
  assumes R: "rounding rnd"
  shows "HomeOwner_step rnd (set_intention example_auction 0 BUY (Some 2)) 1 = Inr auction_decided"
proof -
  have "unique_id (house_heap (set_intention example_auction 0 BUY (Some 2)) 2) = 2"
    by (simp add: example_auction_def new_House_def set_intention_def)
  with HomeOwner_step_buy [OF R auction_scores1 [OF R]] show ?thesis
    by (simp add: auction_decided_def)
qed

lemma auction_schedule_step:
  assumes R: "rounding rnd"
  shows "schedule_step rnd example_auction = Inr auction_decided"
proof -
  have "agents example_auction = [0, 1]" by (simp add: example_auction_def)
  with auction_step0 [OF R] auction_step1 [OF R] show ?thesis
    by (simp add: schedule_step_def)
qed

lemma auction_facts:
  "collect_bids auction_decided = [(Some 2, [0, 1])]"
  "bidders_for auction_decided (Some 2) = [0, 1]"
  "financial_capacity (owner_heap auction_decided) 0 = 45000"
  "financial_capacity (owner_heap auction_decided) 1 = 60000"
  "vacancy_pool auction_decided = [2]"
  "house (owner_heap auction_decided 0) = 0"
  "savings (owner_heap auction_decided 1) = 10000"
  by (simp_all add: auction_decided_def example_auction_def collect_bids_def bidders_for_def
        financial_capacity_def calculate_mortgage_capacity_def set_intention_def
        new_HomeOwner_def new_House_def)

theorem winner_has_maximal_capacity_witness:
  "wf_model example_auction \<and> rounding double
   \<and> schedule_step double example_auction = Inr auction_decided
   \<and> collect_bids auction_decided = [(Some 2, [0, 1])]
   \<and> bidders_for auction_decided (Some 2) = [0, 1]
   \<and> financial_capacity (owner_heap auction_decided) 0 = 45000
   \<and> financial_capacity (owner_heap auction_decided) 1 = 60000
   \<and> select_winner (owner_heap auction_decided) [0, 1] = Inr 1
   \<and> (\<exists>m'. resolve_market_conflicts auction_decided = Inr m'
         \<and> house (owner_heap m' 1) = 2 \<and> owner (house_heap m' 2) = Some 1
         \<and> savings (owner_heap m' 1) = 8000
         \<and> owner_heap m' 0 = owner_heap auction_decided 0
         \<and> house_heap m' 0 = house_heap auction_decided 0)"
proof -
  note R = rounding_double
  note st = auction_schedule_step [OF R]
  from winner_has_maximal_capacity [OF auction_wf R st] obtain m' where
    res: "resolve_market_conflicts auction_decided = Inr m'"
    and ent: "\<forall>(k, bs) \<in> set (collect_bids auction_decided). bs = bidders_for auction_decided k \<and> bs \<noteq> []
          \<and> (\<exists>w \<in> set bs. \<exists>t \<in> set (vacancy_pool auction_decided).
                select_winner (owner_heap auction_decided) bs = Inr w
              \<and> (\<forall>b \<in> set bs. financial_capacity (owner_heap auction_decided) b
                                  \<le> financial_capacity (owner_heap auction_decided) w)
              \<and> (\<forall>b \<in> set bs. (\<forall>c \<in> set bs. c \<noteq> b \<longrightarrow>
                     financial_capacity (owner_heap auction_decided) c
                       < financial_capacity (owner_heap auction_decided) b)
                   \<longrightarrow> w = b)
              \<and> financial_capacity (owner_heap auction_decided) w
                  = savings (owner_heap auction_decided w) + 5 * income (owner_heap auction_decided w)
              \<and> k = Some (unique_id (house_heap auction_decided t))
              \<and> house (owner_heap m' w) = t \<and> owner (house_heap m' t) = Some w
              \<and> savings (owner_heap m' w)
                  = savings (owner_heap auction_decided w) - MOVING_COST_FIXED
              \<and> (\<forall>b \<in> set bs. b \<noteq> w \<longrightarrow>
                    owner_heap m' b = owner_heap auction_decided b
                    \<and> house_heap m' (house (owner_heap auction_decided b))
                        = house_heap auction_decided (house (owner_heap auction_decided b))))"
    by (elim exE conjE) (rule that, assumption+)
  have mem: "(Some 2, [0, 1]) \<in> set (collect_bids auction_decided)"
    by (simp add: auction_facts(1))
  from bspec [OF ent mem] obtain w t where
    w: "w \<in> set [0, 1::nat]" "t \<in> set (vacancy_pool auction_decided)"
       "select_winner (owner_heap auction_decided) [0, 1] = Inr w"
       "\<forall>b \<in> set [0, 1]. financial_capacity (owner_heap auction_decided) b
                                  \<le> financial_capacity (owner_heap auction_decided) w"
       "house (owner_heap m' w) = t" "owner (house_heap m' t) = Some w"
       "savings (owner_heap m' w) = savings (owner_heap auction_decided w) - MOVING_COST_FIXED"
       "\<forall>b \<in> set [0, 1]. b \<noteq> w \<longrightarrow>
                    owner_heap m' b = owner_heap auction_decided b
                    \<and> house_heap m' (house (owner_heap auction_decided b))
                        = house_heap auction_decided (house (owner_heap auction_decided b))"
    unfolding prod.case by (elim bexE conjE) (rule that, assumption+)
  from w(2) have t2: "t = 2" by (simp add: auction_facts(5))
  from w(4) have "financial_capacity (owner_heap auction_decided) 1
      \<le> financial_capacity (owner_heap auction_decided) w" by simp
  with w(1) auction_facts(3,4) have w1: "w = 1" by auto
  from w(7) have sv: "savings (owner_heap m' 1) = 8000"
    unfolding w1 auction_facts(7) by (simp add: model_consts)
  from w(8) have "(0::nat) \<noteq> w \<longrightarrow>
                    owner_heap m' 0 = owner_heap auction_decided 0
                    \<and> house_heap m' (house (owner_heap auction_decided 0))
                        = house_heap auction_decided (house (owner_heap auction_decided 0))"
    by simp
  then have un: "owner_heap m' 0 = owner_heap auction_decided 0"
    "house_heap m' 0 = house_heap auction_decided 0"
    unfolding w1 auction_facts(6) by simp_all
  from w(3,5,6) have win: "select_winner (owner_heap auction_decided) [0, 1] = Inr 1"
    "house (owner_heap m' 1) = 2" "owner (house_heap m' 2) = Some 1"
    unfolding w1 t2 by simp_all
  from res win sv un have "\<exists>m'. resolve_market_conflicts auction_decided = Inr m'
         \<and> house (owner_heap m' 1) = 2 \<and> owner (house_heap m' 2) = Some 1
         \<and> savings (owner_heap m' 1) = 8000
         \<and> owner_heap m' 0 = owner_heap auction_decided 0
         \<and> house_heap m' 0 = house_heap auction_decided 0" by blast
  with auction_wf R st auction_facts(1-4) win(1) show ?thesis by (intro conjI)
qed

end
